theory Spec2Isabelle
  imports Main "HOL-Library.AList"
begin

section \<open>Go values\<close>

text \<open>
  Go's \<open>int\<close> is modelled as \<open>int\<close>: chip counts and seat numbers stay far from the
  64-bit bounds, and no property below depends on wrap-around.
  A Go \<open>map[int]T\<close> is an association list of (key, value) entries; \<open>map_of\<close> looks a
  key up and \<open>AList.update\<close> stores a value. Go ranges over a map in an unspecified order;
  the model ranges in list order, and every general statement below is for all lists, hence
  for every order.
  A panic, and an error return, is \<open>Inl\<close> of an \<open>error\<close>.
\<close>

datatype error =
    ErrInvalidAction
  | ErrInvalidBet
  | ErrInvalidRaise
  | Panic string

text \<open>\<open>m[k]\<close> on a \<open>map[int]int\<close>: the zero value when the key is absent.\<close>

definition index0 :: "(int \<times> int) list \<Rightarrow> int \<Rightarrow> int" where
  "index0 m k = (case map_of m k of None \<Rightarrow> 0 | Some v \<Rightarrow> v)"

text \<open>Go's \<open>/\<close> and \<open>%\<close> on int truncate towards zero (the divisor is checked by the caller).\<close>

definition go_div :: "int \<Rightarrow> int \<Rightarrow> int" where
  "go_div a b = sgn a * sgn b * (\<bar>a\<bar> div \<bar>b\<bar>)"

definition go_mod :: "int \<Rightarrow> int \<Rightarrow> int" where
  "go_mod a b = a - b * go_div a b"

section \<open>Cards (hand/card.go)\<close>

type_synonym byte = nat
type_synonym Rank = "byte list"
type_synonym Suit = "byte list"

record Card =
  TheRank :: Rank
  TheSuit :: Suit

datatype Visibility = Concealed | Exposed

record HoleCard =
  Card :: Card
  Visibility :: Visibility

text \<open>
  A Go string is a sequence of bytes holding UTF-8, so \<open>Rank\<close> and \<open>Suit\<close>, both
  \<open>string\<close> types in the source, are lists of bytes. The thirteen ranks are one ASCII
  character each; the four suits are the three-byte encodings of U+2660, U+2665, U+2666 and
  U+2663.
\<close>

definition Two :: Rank where "Two = [0x32]"
definition Three :: Rank where "Three = [0x33]"
definition Four :: Rank where "Four = [0x34]"
definition Five :: Rank where "Five = [0x35]"
definition Six :: Rank where "Six = [0x36]"
definition Seven :: Rank where "Seven = [0x37]"
definition Eight :: Rank where "Eight = [0x38]"
definition Nine :: Rank where "Nine = [0x39]"
definition Ten :: Rank where "Ten = [0x54]"
definition Jack :: Rank where "Jack = [0x4A]"
definition Queen :: Rank where "Queen = [0x51]"
definition King :: Rank where "King = [0x4B]"
definition Ace :: Rank where "Ace = [0x41]"

definition Spades :: Suit where "Spades = [0xE2, 0x99, 0xA0]"
definition Hearts :: Suit where "Hearts = [0xE2, 0x99, 0xA5]"
definition Diamonds :: Suit where "Diamonds = [0xE2, 0x99, 0xA6]"
definition Clubs :: Suit where "Clubs = [0xE2, 0x99, 0xA3]"

definition allRanks :: "Rank list" where
  "allRanks = [Two, Three, Four, Five, Six, Seven, Eight, Nine, Ten, Jack, Queen, King, Ace]"

definition allSuits :: "Suit list" where
  "allSuits = [Spades, Hearts, Diamonds, Clubs]"

text \<open>\<open>Rank.indexOf\<close> and \<open>Rank.valid\<close>; \<open>Suit.valid\<close> is \<open>strings.Contains\<close> on the four
  suit characters written one after the other.\<close>

fun indexOf_loop :: "Rank list \<Rightarrow> int \<Rightarrow> Rank \<Rightarrow> int" where
  "indexOf_loop [] i r = - 1"
| "indexOf_loop (rank # ranks) i r = (if r = rank then i else indexOf_loop ranks (i + 1) r)"

definition indexOf :: "Rank \<Rightarrow> int" where
  "indexOf r = indexOf_loop allRanks 0 r"

definition Rank_valid :: "Rank \<Rightarrow> bool" where
  "Rank_valid r = (indexOf r \<noteq> - 1)"

definition Contains :: "byte list \<Rightarrow> byte list \<Rightarrow> bool" where
  "Contains s substr =
     list_ex (\<lambda>i. take (length substr) (drop i s) = substr) [0 ..< Suc (length s)]"

definition Suit_valid :: "Suit \<Rightarrow> bool" where
  "Suit_valid s = Contains (Spades @ Hearts @ Diamonds @ Clubs) s"

text \<open>
  \<open>UnmarshalText\<close> ranges over \<open>string(text)\<close>: at every step Go decodes one code point
  from the remaining bytes and yields it with the byte offset where it starts.
  \<open>decodeRune\<close> is that decoding step (\<open>utf8.DecodeRune\<close>): an ill-formed or truncated
  sequence yields \<open>RuneError\<close> with width 1. \<open>encodeRune\<close> is the conversion \<open>string(c)\<close> of a
  code point to a string, used by \<open>Rank(c)\<close> and \<open>Suit(c)\<close>.
\<close>

definition RuneError :: nat where
  "RuneError = 0xFFFD"

definition accept_range :: "byte \<Rightarrow> byte \<times> byte" where
  "accept_range b0 =
     (if b0 = 0xE0 then (0xA0, 0xBF)
      else if b0 = 0xED then (0x80, 0x9F)
      else if b0 = 0xF0 then (0x90, 0xBF)
      else if b0 = 0xF4 then (0x80, 0x8F)
      else (0x80, 0xBF))"

fun decodeRune :: "byte list \<Rightarrow> nat \<times> nat" where
  "decodeRune [] = (RuneError, 0)"
| "decodeRune (b0 # bs) =
     (if b0 < 0x80 then (b0, 1)
      else if b0 < 0xC2 \<or> 0xF4 < b0 then (RuneError, 1)
      else
        (let sz = (if b0 < 0xE0 then 2 else if b0 < 0xF0 then 3 else 4 :: nat);
             lo = fst (accept_range b0);
             hi = snd (accept_range b0)
         in if Suc (length bs) < sz then (RuneError, 1)
            else
              (let b1 = bs ! 0
               in if b1 < lo \<or> hi < b1 then (RuneError, 1)
                  else if sz \<le> 2 then ((b0 mod 0x20) * 0x40 + b1 mod 0x40, 2)
                  else
                    (let b2 = bs ! 1
                     in if b2 < 0x80 \<or> 0xBF < b2 then (RuneError, 1)
                        else if sz \<le> 3
                          then ((b0 mod 0x10) * 0x1000 + (b1 mod 0x40) * 0x40 + b2 mod 0x40, 3)
                        else
                          (let b3 = bs ! 2
                           in if b3 < 0x80 \<or> 0xBF < b3 then (RuneError, 1)
                              else ((b0 mod 8) * 0x40000 + (b1 mod 0x40) * 0x1000
                                      + (b2 mod 0x40) * 0x40 + b3 mod 0x40, 4))))))"

definition encodeRune :: "nat \<Rightarrow> byte list" where
  "encodeRune r =
     (if r < 0x80 then [r]
      else if r < 0x800 then [0xC0 + r div 0x40, 0x80 + r mod 0x40]
      else if 0x10FFFF < r \<or> (0xD800 \<le> r \<and> r \<le> 0xDFFF) then [0xEF, 0xBF, 0xBD]
      else if r < 0x10000
        then [0xE0 + r div 0x1000, 0x80 + (r div 0x40) mod 0x40, 0x80 + r mod 0x40]
      else [0xF0 + r div 0x40000, 0x80 + (r div 0x1000) mod 0x40,
            0x80 + (r div 0x40) mod 0x40, 0x80 + r mod 0x40])"

text \<open>
  \<open>Card.UnmarshalText\<close>. \<open>ErrFormat\<close> is the error built from \<open>errStr\<close>. The loop carries the
  byte offset \<open>i\<close>, the bytes not yet read, and the rank and suit found so far.
\<close>

datatype card_error = ErrFormat

function unmarshal_loop :: "nat \<Rightarrow> byte list \<Rightarrow> Rank \<Rightarrow> Suit \<Rightarrow> card_error + Rank \<times> Suit" where
  "unmarshal_loop i [] rank suit = Inr (rank, suit)"
| "unmarshal_loop i (b # bs) rank suit =
     (let c = fst (decodeRune (b # bs));
          w = snd (decodeRune (b # bs))
      in if i = 0 \<and> Rank_valid (encodeRune c)
           then unmarshal_loop (i + w) (drop w (b # bs)) (encodeRune c) suit
         else if i = 1 \<and> Suit_valid (encodeRune c)
           then unmarshal_loop (i + w) (drop w (b # bs)) rank (encodeRune c)
         else Inl ErrFormat)"
  by pat_completeness auto

termination
proof (relation "measure (\<lambda>(i, bs, rank, suit). length bs)")
  show "wf (measure (\<lambda>(i, bs, rank, suit). length bs))" by simp
next
  fix i :: nat and b :: byte and bs rank suit c w
  assume "w = snd (decodeRune (b # bs))"
  moreover have "0 < snd (decodeRune (b # bs))" by (simp add: Let_def)
  ultimately have "0 < w" by simp
  then show "((i + w, drop w (b # bs), encodeRune c, suit), (i, b # bs, rank, suit))
        \<in> measure (\<lambda>(i, bs, rank, suit). length bs)"
    by simp
next
  fix i :: nat and b :: byte and bs rank suit c w
  assume "w = snd (decodeRune (b # bs))"
  moreover have "0 < snd (decodeRune (b # bs))" by (simp add: Let_def)
  ultimately have "0 < w" by simp
  then show "((i + w, drop w (b # bs), rank, encodeRune c), (i, b # bs, rank, suit))
        \<in> measure (\<lambda>(i, bs, rank, suit). length bs)"
    by simp
qed

definition UnmarshalText :: "byte list \<Rightarrow> card_error + Card" where
  "UnmarshalText text =
     (case unmarshal_loop 0 text [] [] of
        Inl e \<Rightarrow> Inl e
      | Inr (rank, suit) \<Rightarrow>
          if rank = [] \<or> suit = [] then Inl ErrFormat
          else Inr \<lparr>TheRank = rank, TheSuit = suit\<rparr>)"

definition MarshalText :: "Card \<Rightarrow> byte list" where
  "MarshalText c = TheRank c @ TheSuit c"

text \<open>\<open>Cards\<close>: the 52 cards, suit by suit, from the ace down to the two.\<close>

definition Cards :: "Card list" where
  "Cards = concat (map (\<lambda>s. map (\<lambda>r. \<lparr>TheRank = r, TheSuit = s\<rparr>) (rev allRanks)) allSuits)"

section \<open>Configuration (table/config.go)\<close>

text \<open>\<open>Action\<close> and \<open>Limit\<close> are Go string types with named constants.\<close>

type_synonym Action = string

definition Fold :: Action where "Fold = ''Fold''"
definition Check :: Action where "Check = ''Check''"
definition Call :: Action where "Call = ''Call''"
definition Bet :: Action where "Bet = ''Bet''"
definition Raise :: Action where "Raise = ''Raise''"
definition Stand :: Action where "Stand = ''stand''"

type_synonym Limit = string

definition NoLimit :: Limit where "NoLimit = ''NL''"
definition PotLimit :: Limit where "PotLimit = ''PL''"
definition FixedLimit :: Limit where "FixedLimit = ''FL''"

text \<open>
  \<open>Game\<close> is declared in a file that is not part of the sources at hand; the table only
  stores it and asks it for its rules. The one rule used below, \<open>FixedLimit(opts, round)\<close>,
  is a parameter \<open>fl\<close> of the functions that call it.
\<close>

type_synonym Game = string

record Stakes =
  SmallBet :: int
  BigBet :: int
  Ante :: int
  Straddle :: bool

record Config =
  Game :: Game
  Limit :: Limit
  Stakes :: Stakes
  NumOfSeats :: int

text \<open>The values a \<open>Player\<close>'s accessors return.\<close>

record Player =
  ID :: int
  Nickname :: string
  Country :: string
  Hosted :: bool
  PlayDuration :: int

section \<open>The pot (table/pot.go)\<close>

text \<open>A \<open>Pot\<close> is its \<open>contributions\<close> map, seat to chips.\<close>

type_synonym Pot = "(int \<times> int) list"

text \<open>\<open>newPot\<close>: zero contributions for the seats \<open>0 .. numOfSeats - 1\<close>.\<close>

definition newPot :: "int \<Rightarrow> Pot" where
  "newPot numOfSeats = map (\<lambda>i. (int i, 0)) [0 ..< nat numOfSeats]"

definition Pot_Chips :: "Pot \<Rightarrow> int" where
  "Pot_Chips p = fold (\<lambda>(seat, c) chips. chips + c) p 0"

definition Pot_Outstanding :: "Pot \<Rightarrow> int \<Rightarrow> int" where
  "Pot_Outstanding p seat =
     (let most = fold (\<lambda>(s, chips) most. if chips > most then chips else most) p 0
      in most - index0 p seat)"

definition Pot_contribute :: "Pot \<Rightarrow> int \<Rightarrow> int \<Rightarrow> error + Pot" where
  "Pot_contribute p seat chips =
     (if chips < 0 then Inl (Panic ''table: pot contribute negative bet amount'')
      else Inr (AList.update seat (index0 p seat + chips) p))"

subsection \<open>Side pots\<close>

text \<open>
  \<open>sidePotAmounts\<close> ranges over the contributions: an entry with 0 chips is deleted from
  the pot (in place), every other chip value is appended to \<open>amounts\<close> unless it is found
  there already; then \<open>amounts\<close> is sorted ascending. The model returns the amounts and
  the pot after the deletions.
\<close>

fun amounts_loop :: "Pot \<Rightarrow> int list \<Rightarrow> int list" where
  "amounts_loop [] amounts = amounts"
| "amounts_loop ((seat, chips) # rest) amounts =
     (if chips = 0 then amounts_loop rest amounts
      else
        (let found = fold (\<lambda>a found. found \<or> a = chips) amounts False
         in if \<not> found then amounts_loop rest (amounts @ [chips])
            else amounts_loop rest amounts))"

definition Pot_sidePotAmounts :: "Pot \<Rightarrow> int list \<times> Pot" where
  "Pot_sidePotAmounts p =
     (sort (amounts_loop p []), filter (\<lambda>(seat, chips). chips \<noteq> 0) p)"

text \<open>
  The body of the first loop of \<open>SidePots\<close>: the pot \<open>side\<close> for the amount \<open>a\<close>, where
  \<open>lastAmount\<close> is the amount before it (the variable \<open>last\<close>, 0 for the first).
\<close>

definition side_pot :: "Pot \<Rightarrow> int \<Rightarrow> int \<Rightarrow> Pot" where
  "side_pot p lastAmount a =
     List.map_filter
       (\<lambda>(seat, chips).
          if chips > lastAmount \<and> chips \<ge> a then Some (seat, a - lastAmount)
          else if chips > lastAmount \<and> chips < a then Some (seat, chips - lastAmount)
          else None)
       p"

fun bucket_pots :: "Pot \<Rightarrow> int \<Rightarrow> int list \<Rightarrow> Pot list" where
  "bucket_pots p lastAmount [] = []"
| "bucket_pots p lastAmount (a # amounts) =
     side_pot p lastAmount a # bucket_pots p a amounts"

text \<open>
  The second loop. \<open>hasAllin\<close>: some seat of \<open>pot\<close> has, with what it holds in the side
  pots kept so far, contributed exactly its begin chips.
\<close>

definition hasAllin :: "(int \<times> int) list \<Rightarrow> Pot list \<Rightarrow> Pot \<Rightarrow> bool" where
  "hasAllin playerBeginChips sidePots pot =
     fold (\<lambda>(seat, chips) hasAllin.
             (let totalChips = fold (\<lambda>s total. total + index0 s seat) sidePots chips
              in if totalChips = index0 playerBeginChips seat then True else hasAllin))
          pot False"

definition add_contributions :: "Pot \<Rightarrow> Pot \<Rightarrow> Pot" where
  "add_contributions pot target =
     fold (\<lambda>(seat, chips) sp. AList.update seat (index0 sp seat + chips) sp) pot target"

text \<open>
  \<open>i\<close> is the index of \<open>pot\<close> in \<open>pots\<close>. In the second branch \<open>i\<close> is not 0, so the
  first pot has been appended before and \<open>sidePots\<close> is not empty
  (lemma \<open>merge_pots_cons\<close> below starts the loop with that first step).
\<close>

fun merge_pots :: "(int \<times> int) list \<Rightarrow> nat \<Rightarrow> bool \<Rightarrow> Pot list \<Rightarrow> Pot list \<Rightarrow> Pot list" where
  "merge_pots playerBeginChips i lastAllIn sidePots [] = sidePots"
| "merge_pots playerBeginChips i lastAllIn sidePots (pot # pots) =
     (let has = hasAllin playerBeginChips sidePots pot
      in if lastAllIn \<or> (lastAllIn \<and> has) \<or> i = 0
           then merge_pots playerBeginChips (i + 1) has (sidePots @ [pot]) pots
         else
           (let lastPot = length sidePots - 1
            in merge_pots playerBeginChips (i + 1) has
                 (sidePots[lastPot := add_contributions pot (sidePots ! lastPot)]) pots))"

text \<open>\<open>SidePots\<close> returns the side pots; the second component is the pot itself afterwards.\<close>

definition Pot_SidePots :: "Pot \<Rightarrow> (int \<times> int) list \<Rightarrow> Pot list \<times> Pot" where
  "Pot_SidePots p playerBeginChips =
     (let (amounts, p') = Pot_sidePotAmounts p;
          pots = bucket_pots p' 0 amounts
      in (merge_pots playerBeginChips 0 False [] pots, p'))"

definition Pot_seats :: "Pot \<Rightarrow> int list" where
  "Pot_seats p = map fst p"

subsection \<open>Results\<close>

datatype Share = WonHigh | WonLow | SplitHigh | SplitLow

text \<open>
  The hand package's \<open>Hand\<close> is not among the sources at hand: the type of hands is a
  parameter \<open>'h\<close>, and \<open>None\<close> is the nil \<open>*hand.Hand\<close>.
\<close>

record 'h Result =
  PotNo :: int
  Hand :: "'h option"
  Chips :: int
  Share :: Share

type_synonym 'h Hands = "(int \<times> 'h option) list"
type_synonym 'h Results = "(int \<times> 'h Result list) list"

definition highPotShare :: "int \<Rightarrow> Share" where
  "highPotShare n = (if n = 1 then WonHigh else SplitHigh)"

definition lowPotShare :: "int \<Rightarrow> Share" where
  "lowPotShare n = (if n = 1 then WonLow else SplitLow)"

text \<open>\<open>take\<close>: the seat takes the entire pot.\<close>

definition Pot_take :: "Pot \<Rightarrow> int \<Rightarrow> 'h Results" where
  "Pot_take p seat = [(seat, [\<lparr>PotNo = 0, Hand = None, Chips = Pot_Chips p, Share = WonHigh\<rparr>])]"

text \<open>
  \<open>resultsFromWinners\<close>. \<open>add_chip\<close> is \<open>results[seat][0].Chips++\<close>; \<open>check_seat\<close> is
  the inner loop over the sorted winning seats, which gives \<open>seatToCheck\<close> a chip if it is
  a winning seat; \<open>remainder_loop\<close> is the outer \<open>for\<close>, which ends only when the
  remainder has reached 0 (\<open>None\<close>: it runs forever).
\<close>

definition add_chip :: "int \<Rightarrow> 'h Results \<Rightarrow> 'h Results" where
  "add_chip seat results =
     AList.map_entry seat
       (\<lambda>rs. case rs of [] \<Rightarrow> [] | r # rest \<Rightarrow> r\<lparr>Chips := Chips r + 1\<rparr> # rest)
       results"

fun check_seat :: "int list \<Rightarrow> int \<Rightarrow> 'h Results \<Rightarrow> int \<Rightarrow> 'h Results \<times> int" where
  "check_seat [] seatToCheck results remainder = (results, remainder)"
| "check_seat (seat # seats) seatToCheck results remainder =
     (if seat = seatToCheck then (add_chip seat results, remainder - 1)
      else check_seat seats seatToCheck results remainder)"

partial_function (option) remainder_loop ::
  "int list \<Rightarrow> int \<Rightarrow> 'h Results \<Rightarrow> int \<Rightarrow> 'h Results option" where
  "remainder_loop winningSeats seatToCheck results remainder =
     (if remainder = 0 then Some results
      else
        (case check_seat winningSeats seatToCheck results remainder of
           (results', remainder') \<Rightarrow>
             remainder_loop winningSeats (go_mod (seatToCheck + 1) 10) results' remainder'))"

declare remainder_loop.simps [code]

text \<open>
  The result is \<open>None\<close> when the call does not return, \<open>Some (Inl e)\<close> when it panics
  (\<open>chips % len(winners)\<close> with no winner) and \<open>Some (Inr results)\<close> when it returns.
  The receiver is not used by the function and is left out.
\<close>

definition Pot_resultsFromWinners ::
  "int \<Rightarrow> 'h Hands \<Rightarrow> int \<Rightarrow> int \<Rightarrow> (int \<Rightarrow> Share) \<Rightarrow> (error + 'h Results) option" where
  "Pot_resultsFromWinners potNo winners chips button f =
     (let n = int (length winners);
          results =
            fold (\<lambda>(seat, hand) results.
                    AList.update seat
                      [\<lparr>PotNo = potNo, Hand = hand, Chips = go_div chips n, Share = f n\<rparr>]
                      results)
                 winners [];
          winningSeats = sort (map fst winners)
      in if n = 0 then Some (Inl (Panic ''integer divide by zero''))
         else map_option Inr
                (remainder_loop winningSeats (go_mod button 10) results (go_mod chips n)))"

text \<open>\<open>combineResults\<close> appends, seat by seat, the results of the maps given.\<close>

definition combineResults :: "'h Results list \<Rightarrow> 'h Results" where
  "combineResults ms =
     fold (\<lambda>m combined.
             fold (\<lambda>(k, v) combined.
                     AList.update k
                       ((case map_of combined k of None \<Rightarrow> [] | Some rs \<Rightarrow> rs) @ v)
                       combined)
                  m combined)
          ms []"

section \<open>The table (table/table.go)\<close>

record PlayerState =
  player :: Player
  holeCards :: "HoleCard list"
  chips :: int
  beginChips :: int
  acted :: bool
  out :: bool
  allin :: bool
  canRaise :: bool
  roundPot :: int
  playerPot :: int  \<comment> \<open>the field \<open>pot\<close> of \<open>PlayerState\<close>\<close>
  stand :: bool
  straddle :: bool

record StraddleSeat =
  UserId :: int
  Seat :: int
  Category :: nat
  Voluntary :: bool

record Table =
  opts :: Config
  deck :: "Card list"
  button :: int
  smallBetSeat :: int
  bigBetSeat :: int
  utgSeat :: int
  action :: int
  roundNo :: int  \<comment> \<open>the field \<open>round\<close>\<close>
  minRaise :: int
  board :: "Card list"
  players :: "(int \<times> PlayerState) list"
  pot :: Pot
  sidePots :: "Pot list"
  startedHand :: bool
  showdown :: bool
  straddleSeats :: "StraddleSeat list"

text \<open>\<open>CurrentPlayer\<close> is \<open>t.players[t.Action()]\<close>: \<open>None\<close> is the nil pointer.\<close>

definition CurrentPlayer :: "Table \<Rightarrow> PlayerState option" where
  "CurrentPlayer t = map_of (players t) (action t)"

definition IsPreFlop :: "Table \<Rightarrow> bool" where
  "IsPreFlop t = (roundNo t = 0)"

definition Outstanding :: "Table \<Rightarrow> int" where
  "Outstanding t =
     (case CurrentPlayer t of
        None \<Rightarrow> - 1
      | Some p \<Rightarrow>
          if allin p \<or> out p then 0
          else Pot_Outstanding (pot t) (action t))"

definition MaxRaise :: "(Config \<Rightarrow> int \<Rightarrow> int) \<Rightarrow> Table \<Rightarrow> int" where
  "MaxRaise fl t =
     (case CurrentPlayer t of
        None \<Rightarrow> - 1
      | Some p \<Rightarrow>
          (let outstanding = Outstanding t;
               bettableChips = chips p + roundPot p
           in if bettableChips \<le> 0 then 0
              else
                (let max =
                       (if Limit (opts t) = PotLimit
                          then Pot_Chips (pot t) + outstanding + outstanding + roundPot p
                        else if Limit (opts t) = FixedLimit
                          then fl (opts t) (roundNo t)
                        else bettableChips)
                 in if max > bettableChips then bettableChips else max)))"

definition MinRaise :: "Table \<Rightarrow> int" where
  "MinRaise t =
     (case CurrentPlayer t of
        None \<Rightarrow> - 1
      | Some p \<Rightarrow>
          (let outstanding = Outstanding t;
               bettableChips = chips p + roundPot p
           in if Limit (opts t) = FixedLimit then 1
              else
                (let min =
                       (if IsPreFlop t
                          then (if minRaise t = 0 then 2 * BigBet (Stakes (opts t))
                                else outstanding + minRaise t + roundPot p)
                        else (if minRaise t = 0 then BigBet (Stakes (opts t))
                              else outstanding + minRaise t + roundPot p))
                 in if bettableChips < min then bettableChips else min)))"

text \<open>
  \<open>ValidActions\<close> calls \<open>player.AllIn()\<close> on the current player without a nil check:
  with nobody on the action seat it panics.
\<close>

definition ValidActions :: "Table \<Rightarrow> error + Action list" where
  "ValidActions t =
     (case CurrentPlayer t of
        None \<Rightarrow> Inl (Panic ''nil pointer dereference'')
      | Some p \<Rightarrow>
          if allin p \<or> out p then Inr []
          else if Outstanding t = 0 then Inr [Fold, Check, Bet]
          else if \<not> canRaise p then Inr [Fold, Call]
          else if chips p \<le> Outstanding t then Inr [Fold, Call]
          else Inr [Fold, Call, Raise])"

subsection \<open>Applying an action\<close>

text \<open>
  A \<open>*PlayerState\<close> held by the code points into \<open>t.players\<close>: a write through it is
  a change of the entry of its seat.
\<close>

definition modify_player :: "Table \<Rightarrow> int \<Rightarrow> (PlayerState \<Rightarrow> PlayerState) \<Rightarrow> Table" where
  "modify_player t seat f = t\<lparr>players := AList.map_entry seat f (players t)\<rparr>"

text \<open>The round constant \<open>preflop\<close> is the round 0, as in \<open>IsPreFlop\<close>.\<close>

definition preflop :: int where
  "preflop = 0"

definition PlayerState_addToPot :: "PlayerState \<Rightarrow> int \<Rightarrow> int \<Rightarrow> int \<Rightarrow> PlayerState" where
  "PlayerState_addToPot st c deduct r =
     (if r = preflop then st\<lparr>roundPot := roundPot st + (c - deduct)\<rparr>
      else st\<lparr>roundPot := roundPot st + c\<rparr>)
       \<lparr>playerPot := playerPot st + c\<rparr>"

text \<open>
  \<open>Table.addToPot\<close>: at most the player's chips move from the stack to the pot, and a
  player who puts in all of them is all-in. \<open>contribute\<close> panics on a negative amount.
\<close>

definition addToPot :: "Table \<Rightarrow> int \<Rightarrow> int \<Rightarrow> error + Table" where
  "addToPot t seat c =
     (case map_of (players t) seat of
        None \<Rightarrow> Inl (Panic ''nil pointer dereference'')
      | Some p \<Rightarrow>
          (let p1 = (if c \<ge> chips p then p\<lparr>allin := True\<rparr> else p);
               c1 = (if c \<ge> chips p then chips p else c);
               p2 = p1\<lparr>chips := chips p1 - c1\<rparr>
           in case Pot_contribute (pot t) seat c1 of
                Inl e \<Rightarrow> Inl e
              | Inr pot' \<Rightarrow> Inr (t\<lparr>players := AList.update seat p2 (players t), pot := pot'\<rparr>)))"

definition resetActed :: "Table \<Rightarrow> Table" where
  "resetActed t = t\<lparr>players := map (\<lambda>(s, p). (s, p\<lparr>acted := False\<rparr>)) (players t)\<rparr>"

definition resetCanRaise :: "Table \<Rightarrow> int \<Rightarrow> Table" where
  "resetCanRaise t seat =
     t\<lparr>players := map (\<lambda>(s, p). (s, p\<lparr>canRaise := \<not> (s = seat)\<rparr>)) (players t)\<rparr>"

definition resetRoundPot :: "Table \<Rightarrow> Table" where
  "resetRoundPot t = t\<lparr>players := map (\<lambda>(s, p). (s, p\<lparr>roundPot := 0\<rparr>)) (players t)\<rparr>"

definition countState :: "Table \<Rightarrow> int \<times> int" where
  "countState t =
     (int (length (filter (\<lambda>(s, p). allin p) (players t))),
      int (length (filter (\<lambda>(s, p). allin p = False \<and> out p = False \<and> acted p) (players t))))"

definition isNobodyCanPlay :: "Table \<Rightarrow> bool" where
  "isNobodyCanPlay t =
     (let count = int (length (filter (\<lambda>(s, p). \<not> allin p \<and> \<not> out p) (players t)));
          actedCount = int (length (filter (\<lambda>(s, p). acted p \<or> out p \<or> allin p) (players t)));
          total = int (length (players t))
      in count < 2 \<and> actedCount = total)"

definition GetPlayerBeginChips :: "Table \<Rightarrow> (int \<times> int) list" where
  "GetPlayerBeginChips t = map (\<lambda>(seat, p). (seat, beginChips p)) (players t)"

text \<open>\<open>updatePots\<close> calls \<open>SidePots\<close> on the table's pot, which drops its zero entries.\<close>

definition updatePots :: "Table \<Rightarrow> Table" where
  "updatePots t =
     (case Pot_SidePots (pot t) (GetPlayerBeginChips t) of
        (sps, p') \<Rightarrow> t\<lparr>sidePots := sps, pot := p'\<rparr>)"

text \<open>
  \<open>showHoleCards\<close>; \<open>ExposedCard\<close> (of a file that is not at hand) is taken to set the
  card's visibility to \<open>Exposed\<close>.
\<close>

definition showHoleCards :: "Table \<Rightarrow> Table" where
  "showHoleCards t =
     (let count = int (length (filter (\<lambda>(s, p). \<not> out p) (players t)))
      in if count > 1
           then t\<lparr>players :=
                  map (\<lambda>(s, p).
                         (s, if \<not> out p
                               then p\<lparr>holeCards := map (\<lambda>h. h\<lparr>Visibility := Exposed\<rparr>) (holeCards p)\<rparr>
                             else p))
                      (players t)\<rparr>
         else t)"

text \<open>
  The \<open>switch a\<close> of \<open>handleAction\<close> that commits the action; \<open>p\<close> is the state of
  \<open>seat\<close> when the function is entered.
\<close>

definition commit_action :: "Table \<Rightarrow> int \<Rightarrow> PlayerState \<Rightarrow> Action \<Rightarrow> int \<Rightarrow> error + Table" where
  "commit_action t seat p a c =
     (if a = Fold then Inr (modify_player t seat (\<lambda>q. q\<lparr>out := True\<rparr>))
      else if a = Call then
        (let outstanding = Outstanding t;
             t1 = modify_player t seat
                    (\<lambda>q. if outstanding > chips p
                         then PlayerState_addToPot q (chips p) 0 (roundNo t)
                         else PlayerState_addToPot q outstanding 0 (roundNo t))
         in addToPot t1 seat outstanding)
      else if a = Bet then
        (let betChips = c - roundPot p;
             t1 = modify_player t seat (\<lambda>q. PlayerState_addToPot q betChips 0 (roundNo t))
         in case addToPot t1 seat betChips of
              Inl e \<Rightarrow> Inl e
            | Inr t2 \<Rightarrow>
                (let t3 = resetActed t2
                 in if betChips \<ge> minRaise t3
                      then Inr ((resetCanRaise t3 seat)\<lparr>minRaise := betChips\<rparr>)
                    else Inr t3))
      else if a = Raise then
        (let raiseChips = c - roundPot p;
             t1 = (if raiseChips - Outstanding t \<ge> minRaise t
                     then (resetCanRaise t seat)
                            \<lparr>minRaise := raiseChips - Outstanding (resetCanRaise t seat)\<rparr>
                   else t);
             t2 = modify_player t1 seat (\<lambda>q. PlayerState_addToPot q raiseChips 0 (roundNo t1))
         in case addToPot t2 seat raiseChips of
              Inl e \<Rightarrow> Inl e
            | Inr t3 \<Rightarrow> Inr (resetActed t3))
      else Inr t)"

text \<open>
  \<open>handleAction(seat, p, a, chips, timeout)\<close>, where \<open>p\<close> is the state of \<open>seat\<close>
  (\<open>Next\<close> passes \<open>t.action\<close> and \<open>t.CurrentPlayer()\<close>). The record of the action handed
  to the player's \<open>SaveAction\<close> at the end does not change the table and is left out.
\<close>

definition handleAction ::
  "(Config \<Rightarrow> int \<Rightarrow> int) \<Rightarrow> Table \<Rightarrow> int \<Rightarrow> Action \<Rightarrow> int \<Rightarrow> error + Table" where
  "handleAction fl t seat a c =
     (case ValidActions t of
        Inl e \<Rightarrow> Inl e
      | Inr vas \<Rightarrow>
          if \<not> fold (\<lambda>va validAction. validAction \<or> va = a) vas False
            then Inl ErrInvalidAction
          else if (a = Bet \<or> a = Raise) \<and> (c < MinRaise t \<or> c > MaxRaise fl t)
            then (if a = Bet then Inl ErrInvalidBet else Inl ErrInvalidRaise)
          else
            (case map_of (players t) seat of
               None \<Rightarrow> Inl (Panic ''nil pointer dereference'')
             | Some p \<Rightarrow>
                 (case commit_action t seat p a c of
                    Inl e \<Rightarrow> Inl e
                  | Inr t1 \<Rightarrow>
                      (let t2 = modify_player t1 seat (\<lambda>q. q\<lparr>canRaise := False, acted := True\<rparr>);
                           countAllin = fst (countState t2);
                           countRich = snd (countState t2)
                       in if isNobodyCanPlay t2 \<and>
                             (countAllin > 1 \<or> (countAllin = 1 \<and> countRich > 0))
                            then Inr (showHoleCards (updatePots (t2\<lparr>showdown := True\<rparr>)))
                          else Inr t2))))"

subsection \<open>Moving the action, setting up a hand, forced bets and straddles\<close>

text \<open>
  \<open>nextSeat\<close>: \<open>k\<close> counts the seats still to try. \<open>seat % t.NumOfSeats()\<close> panics on a
  table without seats.
\<close>

fun nextSeat_loop :: "Table \<Rightarrow> bool \<Rightarrow> nat \<Rightarrow> int \<Rightarrow> int" where
  "nextSeat_loop t playing 0 seat = - 1"
| "nextSeat_loop t playing (Suc k) seat =
     (case map_of (players t) seat of
        Some p \<Rightarrow>
          if \<not> playing \<or> (\<not> out p \<and> \<not> allin p \<and> \<not> acted p) then seat
          else nextSeat_loop t playing k (go_mod (seat + 1) (NumOfSeats (opts t)))
      | None \<Rightarrow> nextSeat_loop t playing k (go_mod (seat + 1) (NumOfSeats (opts t))))"

definition nextSeat :: "Table \<Rightarrow> int \<Rightarrow> bool \<Rightarrow> error + int" where
  "nextSeat t seat playing =
     (if NumOfSeats (opts t) = 0 then Inl (Panic ''integer divide by zero'')
      else Inr (nextSeat_loop t playing (nat (NumOfSeats (opts t)))
                  (go_mod seat (NumOfSeats (opts t)))))"

text \<open>\<open>setUpHand\<close>, with the deck the dealer hands out as the parameter \<open>d\<close>.\<close>

definition setUpHand :: "Table \<Rightarrow> Card list \<Rightarrow> error + Table" where
  "setUpHand t d =
     (case nextSeat (t\<lparr>deck := d, roundNo := 0\<rparr>) (button t + 1) False of
        Inl e \<Rightarrow> Inl e
      | Inr b \<Rightarrow>
          Inr (t\<lparr>deck := d, roundNo := 0, button := b, action := - 1,
                 pot := newPot (NumOfSeats (opts t)), straddleSeats := [], board := [],
                 players :=
                   map (\<lambda>(s, p). (s, p\<lparr>holeCards := [], out := False, allin := False,
                                         beginChips := chips p\<rparr>))
                       (players t)\<rparr>))"

text \<open>
  The forced bet of one seat in the loop of \<open>setUpRound\<close>: \<open>c\<close> is what the game's
  \<open>ForcedBet\<close> asks of the seat; a player pays at most the chips in the stack.
\<close>

definition forcedBet :: "Table \<Rightarrow> int \<Rightarrow> int \<Rightarrow> error + Table" where
  "forcedBet t seat c =
     (case map_of (players t) seat of
        None \<Rightarrow> Inr t
      | Some p \<Rightarrow>
          (let c1 = (if c > chips p then chips p else c)
           in case addToPot t seat c1 of
                Inl e \<Rightarrow> Inl e
              | Inr t1 \<Rightarrow>
                  Inr (modify_player t1 seat
                         (\<lambda>q. PlayerState_addToPot q c1 (Ante (Stakes (opts t))) (roundNo t)))))"

text \<open>\<open>doOneStraddleBet\<close> returns whether the seat posted the straddle.\<close>

definition doOneStraddleBet :: "Table \<Rightarrow> int \<Rightarrow> nat \<Rightarrow> error + Table \<times> bool" where
  "doOneStraddleBet t seat category =
     (case map_of (players t) seat of
        None \<Rightarrow> Inr (t, False)
      | Some state \<Rightarrow>
          if \<not> straddle state then Inr (t, False)
          else
            (let bb = BigBet (Stakes (opts t));
                 betChips0 = (if category = 1 then 2 * bb
                              else if category = 2 then 2 * 2 * bb
                              else if category = 3 then 2 * 2 * 2 * bb
                              else 0);
                 t1 = t\<lparr>minRaise := go_div betChips0 2\<rparr>;
                 betChips = (if betChips0 > chips state then chips state else betChips0)
             in case addToPot t1 seat betChips of
                  Inl e \<Rightarrow> Inl e
                | Inr t2 \<Rightarrow>
                    (let t3 = modify_player t2 seat
                                (\<lambda>q. PlayerState_addToPot q betChips 0 (roundNo t2))
                     in case nextSeat t3 (seat + 1) True of
                          Inl e \<Rightarrow> Inl e
                        | Inr s \<Rightarrow>
                            Inr (modify_player
                                   (t3\<lparr>action := s,
                                       straddleSeats := straddleSeats t3 @
                                         [\<lparr>UserId = ID (player state), Seat = seat,
                                           Category = category,
                                           Voluntary = straddle state\<rparr>]\<rparr>)
                                   seat (\<lambda>q. q\<lparr>straddle := False\<rparr>),
                                 True))))"

subsection \<open>Winning hands and the payout (table/hands.go, table/pot.go)\<close>

text \<open>
  The hand package's \<open>Sorting\<close>, \<open>Sort\<close> and \<open>CompareTo\<close> are not among the sources
  at hand. \<open>Sorting\<close> has the two values the payout names (and may have others); the
  payout's \<open>hand.Sort(sorting, hand.DESC, s...)[0]\<close> on a non-empty \<open>s\<close> is the
  parameter \<open>best sorting s\<close>, and \<open>a.CompareTo(b)\<close> is the parameter
  \<open>compareTo a b\<close>.
\<close>

datatype Sorting = SortingHigh | SortingLow | SortingOther

definition handsForSeats :: "'h Hands \<Rightarrow> int list \<Rightarrow> 'h Hands" where
  "handsForSeats h seats =
     filter (\<lambda>(seat, hand). fold (\<lambda>s found. found \<or> s = seat) seats False) h"

definition IsOut :: "Table \<Rightarrow> int \<Rightarrow> bool" where
  "IsOut t seat = (case map_of (players t) seat of None \<Rightarrow> True | Some state \<Rightarrow> out state)"

text \<open>
  \<open>handsCopy\<close> holds the hands that are not nil, so its entries carry a hand; the
  selected hands go back into a \<open>Hands\<close> map.
\<close>

definition select_best ::
  "(Sorting \<Rightarrow> 'h list \<Rightarrow> 'h) \<Rightarrow> ('h \<Rightarrow> 'h \<Rightarrow> int) \<Rightarrow> Sorting \<Rightarrow> (int \<times> 'h) list \<Rightarrow> 'h Hands" where
  "select_best best compareTo sorting handsCopy =
     (if length handsCopy = 0 then []
      else
        (let s = map snd handsCopy;
             b = best sorting s
         in map (\<lambda>(seat, hand). (seat, Some hand))
              (filter (\<lambda>(seat, hand). compareTo b hand = 0) handsCopy)))"

definition winningHands ::
  "(Sorting \<Rightarrow> 'h list \<Rightarrow> 'h) \<Rightarrow> ('h \<Rightarrow> 'h \<Rightarrow> int) \<Rightarrow> Sorting \<Rightarrow> 'h Hands \<Rightarrow> 'h Hands" where
  "winningHands best compareTo sorting h =
     select_best best compareTo sorting
       (List.map_filter
          (\<lambda>(seat, hand). case hand of None \<Rightarrow> None | Some x \<Rightarrow> Some (seat, x)) h)"

definition winningHandsForHoldem ::
  "(Sorting \<Rightarrow> 'h list \<Rightarrow> 'h) \<Rightarrow> ('h \<Rightarrow> 'h \<Rightarrow> int) \<Rightarrow> Table \<Rightarrow> Sorting \<Rightarrow> 'h Hands \<Rightarrow> 'h Hands" where
  "winningHandsForHoldem best compareTo t sorting h =
     select_best best compareTo sorting
       (List.map_filter
          (\<lambda>(seat, hand).
             case hand of
               None \<Rightarrow> None
             | Some x \<Rightarrow> if \<not> IsOut t seat then Some (seat, x) else None)
          h)"

text \<open>The chips of the high half of a split pot: \<open>p.Chips() / 2\<close>, plus one when that is odd.\<close>

definition highAmount :: "int \<Rightarrow> int" where
  "highAmount c = (let h = go_div c 2 in if go_mod h 2 = 1 then h + 1 else h)"

text \<open>
  \<open>payout\<close> calls itself on every side pot when there is more than one; \<open>fuel\<close> bounds
  the depth of these calls, and \<open>None\<close> says that the call did not return within it.
  \<open>p1\<close> is the pot after \<open>SidePots\<close> has dropped its zero entries.
\<close>

fun Pot_payout ::
  "nat \<Rightarrow> (Sorting \<Rightarrow> 'h list \<Rightarrow> 'h) \<Rightarrow> ('h \<Rightarrow> 'h \<Rightarrow> int) \<Rightarrow> Pot \<Rightarrow> int \<Rightarrow> Table \<Rightarrow>
   'h Hands \<Rightarrow> 'h Hands \<Rightarrow> Sorting \<Rightarrow> int \<Rightarrow> (error + 'h Results) option" where
  "Pot_payout 0 best compareTo p potNo t highHands lowHands sorting b = None"
| "Pot_payout (Suc fuel) best compareTo p potNo t highHands lowHands sorting b =
     (case Pot_SidePots p (GetPlayerBeginChips t) of
        (sps, p1) \<Rightarrow>
          if length sps > 1 then
            fold (\<lambda>(no, sp) acc.
                    case acc of
                      None \<Rightarrow> None
                    | Some (Inl e) \<Rightarrow> Some (Inl e)
                    | Some (Inr results) \<Rightarrow>
                        (case Pot_payout fuel best compareTo sp (int no) t
                                highHands lowHands sorting b of
                           None \<Rightarrow> None
                         | Some (Inl e) \<Rightarrow> Some (Inl e)
                         | Some (Inr r) \<Rightarrow> Some (Inr (combineResults [results, r]))))
                 (enumerate 0 sps) (Some (Inr []))
          else
            (let sideHighHands = handsForSeats highHands (Pot_seats p1);
                 sideLowHands = handsForSeats lowHands (Pot_seats p1);
                 split = (length sideLowHands > 0)
             in if \<not> split \<and> sorting = SortingHigh then
                  Pot_resultsFromWinners potNo
                    (winningHands best compareTo sorting sideHighHands)
                    (Pot_Chips p1) b highPotShare
                else if \<not> split \<and> sorting = SortingLow then
                  Pot_resultsFromWinners potNo
                    (winningHands best compareTo sorting sideHighHands)
                    (Pot_Chips p1) b lowPotShare
                else
                  (let highWinners =
                         winningHandsForHoldem best compareTo t SortingHigh sideHighHands;
                       lowWinners =
                         winningHandsForHoldem best compareTo t SortingLow sideLowHands
                   in if length lowWinners = 0 then
                        Pot_resultsFromWinners potNo highWinners (Pot_Chips p1) b highPotShare
                      else
                        (case Pot_resultsFromWinners potNo highWinners
                                (highAmount (Pot_Chips p1)) b highPotShare of
                           None \<Rightarrow> None
                         | Some (Inl e) \<Rightarrow> Some (Inl e)
                         | Some (Inr highResults) \<Rightarrow>
                             (case Pot_resultsFromWinners potNo lowWinners
                                     (go_div (Pot_Chips p1) 2) b lowPotShare of
                                None \<Rightarrow> None
                              | Some (Inl e) \<Rightarrow> Some (Inl e)
                              | Some (Inr lowResults) \<Rightarrow>
                                  Some (Inr (combineResults [highResults, lowResults])))))))"

text \<open>
  \<open>New\<close> (with the game's \<open>MaxSeats()\<close> as the parameter \<open>maxSeats\<close> and the dealer's
  deck as \<open>d\<close>) and \<open>Sit\<close>. The fields \<open>New\<close> does not set hold Go's zero values.
\<close>

datatype seat_error = ErrInvalidSeat | ErrAlreadySeated | ErrSeatOccupied

definition New :: "int \<Rightarrow> Config \<Rightarrow> Card list \<Rightarrow> error + Table" where
  "New maxSeats os d =
     (if NumOfSeats os > maxSeats then Inl (Panic ''table: too many seats'')
      else Inr \<lparr>opts = os, deck = d, button = 0, smallBetSeat = 0, bigBetSeat = 0,
                utgSeat = 0, action = - 1, roundNo = 0, minRaise = 0, board = [],
                players = [], pot = newPot (NumOfSeats os), sidePots = [],
                startedHand = False, showdown = False, straddleSeats = []\<rparr>)"

definition validSeat :: "Table \<Rightarrow> int \<Rightarrow> bool" where
  "validSeat t seat = (seat \<ge> 0 \<and> seat < NumOfSeats (opts t))"

definition isSeated :: "Table \<Rightarrow> Player \<Rightarrow> bool" where
  "isSeated t p = list_ex (\<lambda>(s, pl). ID p = ID (player pl)) (players t)"

definition Sit :: "Table \<Rightarrow> Player \<Rightarrow> int \<Rightarrow> int \<Rightarrow> bool \<Rightarrow> seat_error + Table" where
  "Sit t p seat c strad =
     (if \<not> validSeat t seat then Inl ErrInvalidSeat
      else if isSeated t p then Inl ErrAlreadySeated
      else if map_of (players t) seat \<noteq> None then Inl ErrSeatOccupied
      else Inr (t\<lparr>players :=
                  AList.update seat
                    \<lparr>player = p, holeCards = [], chips = c, beginChips = c,
                     acted = False, out = False, allin = False, canRaise = False,
                     roundPot = 0, playerPot = 0, stand = False, straddle = strad\<rparr>
                    (players t)\<rparr>))"

subsection \<open>The JSON snapshot\<close>

text \<open>
  \<open>json.Marshal\<close> writes a struct field by field in the order of its declaration and a map
  with its keys sorted, so the text it produces is determined by the value it is given:
  the model takes the \<open>tableJSON\<close> value for the JSON. A field \<open>F\<close> of a struct \<open>S\<close> that
  exists only for serialization is named \<open>S_F\<close>. \<open>Config\<close>, the deck and the hole cards are
  carried as they are (the JSON forms of \<open>Deck\<close> and \<open>HoleCard\<close> are declared in files that
  are not at hand); a card of the board is written by \<open>MarshalText\<close> and read by
  \<open>UnmarshalText\<close>.

  The errors: \<open>ErrSyntax\<close> and \<open>ErrRange\<close> of \<open>strconv.ParseInt\<close>, \<open>ErrRegisterPlayer\<close> when
  no player implementation is registered, \<open>ErrFromID\<close> when \<open>FromID\<close> fails, \<open>ErrCard\<close> when a
  card does not parse.
\<close>

datatype json_error = ErrSyntax | ErrRange | ErrRegisterPlayer | ErrFromID | ErrCard

text \<open>\<open>strconv.FormatInt(i, 10)\<close> and \<open>strconv.ParseInt(s, 10, 64)\<close>.\<close>

function format_nat :: "nat \<Rightarrow> string" where
  "format_nat n =
     (if n < 10 then [''0123456789'' ! n]
      else format_nat (n div 10) @ [''0123456789'' ! (n mod 10)])"
  by pat_completeness auto

termination
  by (relation "measure (\<lambda>n. n)") auto

definition FormatInt :: "int \<Rightarrow> string" where
  "FormatInt i = (if i < 0 then CHR ''-'' # format_nat (nat (- i)) else format_nat (nat i))"

fun digit_value :: "string \<Rightarrow> nat \<Rightarrow> char \<Rightarrow> nat option" where
  "digit_value [] v c = None"
| "digit_value (d # ds) v c = (if c = d then Some v else digit_value ds (v + 1) c)"

fun parse_nat :: "string \<Rightarrow> nat \<Rightarrow> nat option" where
  "parse_nat [] n = Some n"
| "parse_nat (c # cs) n =
     (case digit_value ''0123456789'' 0 c of
        None \<Rightarrow> None
      | Some d \<Rightarrow> parse_nat cs (n * 10 + d))"

definition ParseInt :: "string \<Rightarrow> json_error + int" where
  "ParseInt s =
     (let neg = (s \<noteq> [] \<and> hd s = CHR ''-'');
          ds = (if s \<noteq> [] \<and> (hd s = CHR ''-'' \<or> hd s = CHR ''+'') then tl s else s)
      in if ds = [] then Inl ErrSyntax
         else
           (case parse_nat ds 0 of
              None \<Rightarrow> Inl ErrSyntax
            | Some n \<Rightarrow>
                (let v = (if neg then - int n else int n)
                 in if v < - (2 ^ 63) \<or> 2 ^ 63 \<le> v then Inl ErrRange else Inr v)))"

text \<open>
  \<open>PlayerState.PlayerStateJSON\<close> does not set \<open>Straddle\<close>, which so holds Go's zero value.
  \<open>PlayerState.UnmarshalJSON\<close> asks the registered player implementation for the player of
  the id; \<open>None\<close> is the nil \<open>registeredPlayer\<close>.
\<close>

record PlayerStateJSON =
  PlayerStateJSON_ID :: int
  PlayerStateJSON_Nickname :: string
  PlayerStateJSON_Country :: string
  PlayerStateJSON_Hosted :: bool
  PlayerStateJSON_RoundPot :: int
  PlayerStateJSON_Pot :: int
  PlayerStateJSON_HoleCards :: "HoleCard list"
  PlayerStateJSON_Chips :: int
  PlayerStateJSON_BeginChips :: int
  PlayerStateJSON_Acted :: bool
  PlayerStateJSON_Out :: bool
  PlayerStateJSON_Allin :: bool
  PlayerStateJSON_CanRaise :: bool
  PlayerStateJSON_Stand :: bool
  PlayerStateJSON_Straddle :: bool
  PlayerStateJSON_PlayDuration :: int

definition PlayerState_PlayerStateJSON :: "PlayerState \<Rightarrow> PlayerStateJSON" where
  "PlayerState_PlayerStateJSON state =
     \<lparr>PlayerStateJSON_ID = ID (player state),
      PlayerStateJSON_Nickname = Nickname (player state),
      PlayerStateJSON_Country = Country (player state),
      PlayerStateJSON_Hosted = Hosted (player state),
      PlayerStateJSON_RoundPot = roundPot state,
      PlayerStateJSON_Pot = playerPot state,
      PlayerStateJSON_HoleCards = holeCards state,
      PlayerStateJSON_Chips = chips state,
      PlayerStateJSON_BeginChips = beginChips state,
      PlayerStateJSON_Acted = acted state,
      PlayerStateJSON_Out = out state,
      PlayerStateJSON_Allin = allin state,
      PlayerStateJSON_CanRaise = canRaise state,
      PlayerStateJSON_Stand = stand state,
      PlayerStateJSON_Straddle = False,
      PlayerStateJSON_PlayDuration = PlayDuration (player state)\<rparr>"

definition PlayerState_UnmarshalJSON ::
    "(int \<Rightarrow> json_error + Player) option \<Rightarrow> PlayerStateJSON \<Rightarrow> json_error + PlayerState" where
  "PlayerState_UnmarshalJSON registeredPlayer tpJSON =
     (case registeredPlayer of
        None \<Rightarrow> Inl ErrRegisterPlayer
      | Some FromID \<Rightarrow>
          (case FromID (PlayerStateJSON_ID tpJSON) of
             Inl e \<Rightarrow> Inl ErrFromID
           | Inr p \<Rightarrow>
               Inr \<lparr>player = p,
                    holeCards = PlayerStateJSON_HoleCards tpJSON,
                    chips = PlayerStateJSON_Chips tpJSON,
                    beginChips = PlayerStateJSON_BeginChips tpJSON,
                    acted = PlayerStateJSON_Acted tpJSON,
                    out = PlayerStateJSON_Out tpJSON,
                    allin = PlayerStateJSON_Allin tpJSON,
                    canRaise = PlayerStateJSON_CanRaise tpJSON,
                    roundPot = PlayerStateJSON_RoundPot tpJSON,
                    playerPot = PlayerStateJSON_Pot tpJSON,
                    stand = PlayerStateJSON_Stand tpJSON,
                    straddle = PlayerStateJSON_Straddle tpJSON\<rparr>))"

text \<open>\<open>Pot.PotJSON\<close> and \<open>Pot.UnmarshalJSON\<close>. \<open>parse_seats\<close> is the loop that turns the keys
  of a map back into seat numbers; \<open>Table.UnmarshalJSON\<close> has the same loop for the players.\<close>

record PotJSON =
  PotJSON_Contributions :: "(string \<times> int) list"
  PotJSON_Chips :: int

definition Pot_PotJSON :: "Pot \<Rightarrow> PotJSON" where
  "Pot_PotJSON p =
     \<lparr>PotJSON_Contributions =
        fold (\<lambda>(seat, c) m. AList.update (FormatInt seat) c m) p [],
      PotJSON_Chips = Pot_Chips p\<rparr>"

fun parse_seats :: "(string \<times> 'a) list \<Rightarrow> (int \<times> 'a) list \<Rightarrow> json_error + (int \<times> 'a) list" where
  "parse_seats [] m = Inr m"
| "parse_seats ((seatStr, v) # rest) m =
     (case ParseInt seatStr of
        Inl e \<Rightarrow> Inl e
      | Inr seat \<Rightarrow> parse_seats rest (AList.update seat v m))"

definition Pot_UnmarshalJSON :: "PotJSON \<Rightarrow> json_error + Pot" where
  "Pot_UnmarshalJSON j = parse_seats (PotJSON_Contributions j) []"

text \<open>\<open>traverse\<close> decodes the elements of a JSON array or object one after the other and stops
  at the first error.\<close>

fun traverse :: "('a \<Rightarrow> 'e + 'b) \<Rightarrow> 'a list \<Rightarrow> 'e + 'b list" where
  "traverse f [] = Inr []"
| "traverse f (x # xs) =
     (case f x of
        Inl e \<Rightarrow> Inl e
      | Inr y \<Rightarrow> (case traverse f xs of Inl e \<Rightarrow> Inl e | Inr ys \<Rightarrow> Inr (y # ys)))"

text \<open>
  \<open>Table.MarshalJSON\<close> and \<open>Table.UnmarshalJSON\<close>. The JSON field \<open>minRaise\<close> is written from
  the accessor \<open>t.MinRaise()\<close> and read into the field \<open>t.minRaise\<close>. The fields
  \<open>UnmarshalJSON\<close> does not assign hold Go's zero values.
\<close>

record tableJSON =
  tableJSON_Options :: Config
  tableJSON_Deck :: "Card list"
  tableJSON_Button :: int
  tableJSON_Action :: int
  tableJSON_Round :: int
  tableJSON_MinRaise :: int
  tableJSON_Board :: "byte list list"
  tableJSON_Players :: "(string \<times> PlayerStateJSON) list"
  tableJSON_Pot :: PotJSON
  tableJSON_SidePots :: "PotJSON list"
  tableJSON_StartedHand :: bool
  tableJSON_SmallBetSeat :: int
  tableJSON_BigBetSeat :: int
  tableJSON_UtgSeat :: int

definition Table_MarshalJSON :: "Table \<Rightarrow> tableJSON" where
  "Table_MarshalJSON t =
     \<lparr>tableJSON_Options = opts t,
      tableJSON_Deck = deck t,
      tableJSON_Button = button t,
      tableJSON_Action = action t,
      tableJSON_Round = roundNo t,
      tableJSON_MinRaise = MinRaise t,
      tableJSON_Board = map MarshalText (board t),
      tableJSON_Players =
        fold (\<lambda>(seat, p) m. AList.update (FormatInt seat) (PlayerState_PlayerStateJSON p) m)
          (players t) [],
      tableJSON_Pot = Pot_PotJSON (pot t),
      tableJSON_SidePots = map Pot_PotJSON (sidePots t),
      tableJSON_StartedHand = startedHand t,
      tableJSON_SmallBetSeat = smallBetSeat t,
      tableJSON_BigBetSeat = bigBetSeat t,
      tableJSON_UtgSeat = utgSeat t\<rparr>"

definition decode_card :: "byte list \<Rightarrow> json_error + Card" where
  "decode_card b = (case UnmarshalText b of Inl e \<Rightarrow> Inl ErrCard | Inr c \<Rightarrow> Inr c)"

definition decode_player ::
    "(int \<Rightarrow> json_error + Player) option \<Rightarrow> string \<times> PlayerStateJSON
       \<Rightarrow> json_error + string \<times> PlayerState" where
  "decode_player registeredPlayer e =
     (case PlayerState_UnmarshalJSON registeredPlayer (snd e) of
        Inl err \<Rightarrow> Inl err
      | Inr p \<Rightarrow> Inr (fst e, p))"

definition Table_UnmarshalJSON ::
    "(int \<Rightarrow> json_error + Player) option \<Rightarrow> tableJSON \<Rightarrow> json_error + Table" where
  "Table_UnmarshalJSON registeredPlayer tJSON =
     (case traverse decode_card (tableJSON_Board tJSON) of
        Inl e \<Rightarrow> Inl e
      | Inr cards \<Rightarrow>
     (case traverse (decode_player registeredPlayer) (tableJSON_Players tJSON) of
        Inl e \<Rightarrow> Inl e
      | Inr states \<Rightarrow>
     (case Pot_UnmarshalJSON (tableJSON_Pot tJSON) of
        Inl e \<Rightarrow> Inl e
      | Inr p \<Rightarrow>
     (case traverse Pot_UnmarshalJSON (tableJSON_SidePots tJSON) of
        Inl e \<Rightarrow> Inl e
      | Inr sps \<Rightarrow>
     (case parse_seats states [] of
        Inl e \<Rightarrow> Inl e
      | Inr ps \<Rightarrow>
          Inr \<lparr>opts = tableJSON_Options tJSON,
               deck = tableJSON_Deck tJSON,
               button = tableJSON_Button tJSON,
               smallBetSeat = tableJSON_SmallBetSeat tJSON,
               bigBetSeat = tableJSON_BigBetSeat tJSON,
               utgSeat = tableJSON_UtgSeat tJSON,
               action = tableJSON_Action tJSON,
               roundNo = tableJSON_Round tJSON,
               minRaise = tableJSON_MinRaise tJSON,
               board = cards,
               players = ps,
               pot = p,
               sidePots = sps,
               startedHand = tableJSON_StartedHand tJSON,
               showdown = False,
               straddleSeats = []\<rparr>)))))"

section \<open>Example states\<close>

text \<open>
  A No-Limit table with blinds 1/2 and six seats; player 1 on seat 0 and player 2 on
  seat 1, each with 100 chips at the start of the hand. Preflop, seat 0 has posted the
  small blind and seat 1 the big blind, and the action is on seat 0.
\<close>

definition ex_opts :: Config where
  "ex_opts = \<lparr>Game = ''holdem'', Limit = NoLimit,
              Stakes = \<lparr>SmallBet = 1, BigBet = 2, Ante = 0, Straddle = False\<rparr>,
              NumOfSeats = 6\<rparr>"

definition ex_player :: "int \<Rightarrow> Player" where
  "ex_player i = \<lparr>ID = i, Nickname = [], Country = [], Hosted = False, PlayDuration = 0\<rparr>"

definition ex_state :: "int \<Rightarrow> int \<Rightarrow> int \<Rightarrow> PlayerState" where
  "ex_state i c bet =
     \<lparr>player = ex_player i, holeCards = [], chips = c, beginChips = c + bet,
      acted = False, out = False, allin = False, canRaise = True,
      roundPot = bet, playerPot = bet, stand = False, straddle = False\<rparr>"

definition ex_blinds :: Table where
  "ex_blinds =
     \<lparr>opts = ex_opts, deck = [], button = 0, smallBetSeat = 0, bigBetSeat = 1,
      utgSeat = 0, action = 0, roundNo = 0, minRaise = 0, board = [],
      players = [(0, ex_state 1 99 1), (1, ex_state 2 98 2)],
      pot = [(0, 1), (1, 2), (2, 0), (3, 0), (4, 0), (5, 0)], sidePots = [],
      startedHand = True, showdown = False, straddleSeats = []\<rparr>"

text \<open>The same table between two rounds: nobody is to act.\<close>

definition ex_between :: Table where
  "ex_between = ex_blinds\<lparr>action := - 1\<rparr>"

text \<open>The same table with seat 0 all-in.\<close>

definition ex_allin :: Table where
  "ex_allin =
     ex_blinds\<lparr>players := [(0, (ex_state 1 0 100)\<lparr>allin := True\<rparr>), (1, ex_state 2 98 2)],
               pot := [(0, 100), (1, 2), (2, 0), (3, 0), (4, 0), (5, 0)]\<rparr>"

text \<open>A registered player implementation that knows every id.\<close>

definition ex_registered :: "(int \<Rightarrow> json_error + Player) option" where
  "ex_registered = Some (\<lambda>i. Inr (ex_player i))"

section \<open>Valid actions and the raise bounds\<close>

lemma Outstanding_playing:
  "CurrentPlayer t = Some p \<Longrightarrow> \<not> allin p \<Longrightarrow> \<not> out p \<Longrightarrow>
   Outstanding t = Pot_Outstanding (pot t) (action t)"
  by (simp add: Outstanding_def)

text \<open>
  C7. When a player occupies the action seat, \<open>ValidActions\<close> returns no action if that
  player is all-in or out; otherwise Fold, Check, Bet if the seat owes nothing to the pot;
  otherwise Fold, Call if the player cannot raise or has at most the owed chips;
  otherwise Fold, Call, Raise.
\<close>

theorem ValidActions_cases:
  assumes "CurrentPlayer t = Some p"
  shows "ValidActions t =
           Inr (if allin p \<or> out p then []
                else if Pot_Outstanding (pot t) (action t) = 0 then [Fold, Check, Bet]
                else if \<not> canRaise p \<or> chips p \<le> Pot_Outstanding (pot t) (action t)
                  then [Fold, Call]
                else [Fold, Call, Raise])"
  using assms by (simp add: ValidActions_def Outstanding_def)

theorem ValidActions_cases_witness:
  "CurrentPlayer ex_blinds = Some (ex_state 1 99 1) \<and>
   Pot_Outstanding (pot ex_blinds) (action ex_blinds) = 1 \<and>
   ValidActions ex_blinds = Inr [Fold, Call, Raise]"
proof -
  have cur: "CurrentPlayer ex_blinds = Some (ex_state 1 99 1)"
    by (simp add: CurrentPlayer_def ex_blinds_def)
  have owed: "Pot_Outstanding (pot ex_blinds) (action ex_blinds) = 1"
    by (simp add: Pot_Outstanding_def index0_def ex_blinds_def)
  show ?thesis
    using ValidActions_cases [OF cur] cur owed by (simp add: ex_state_def)
qed

text \<open>
  C10. With no seated player on the action seat, \<open>Outstanding\<close>, \<open>MinRaise\<close> and
  \<open>MaxRaise\<close> each return the sentinel -1; and \<open>Outstanding\<close> returns 0 when the
  current player is all-in or out.
\<close>

theorem accessors_without_current_player:
  "(CurrentPlayer t = None \<longrightarrow>
      Outstanding t = - 1 \<and> MinRaise t = - 1 \<and> MaxRaise fl t = - 1) \<and>
   (\<forall>p. CurrentPlayer t = Some p \<and> (allin p \<or> out p) \<longrightarrow> Outstanding t = 0)"
  by (simp add: Outstanding_def MinRaise_def MaxRaise_def)

theorem accessors_without_current_player_witness:
  "action ex_between = - 1 \<and> CurrentPlayer ex_between = None \<and>
   Outstanding ex_between = - 1 \<and> MinRaise ex_between = - 1 \<and>
   MaxRaise (\<lambda>os r. 2) ex_between = - 1 \<and>
   CurrentPlayer ex_allin = Some ((ex_state 1 0 100)\<lparr>allin := True\<rparr>) \<and>
   Outstanding ex_allin = 0"
proof -
  have none: "CurrentPlayer ex_between = None"
    by (simp add: CurrentPlayer_def ex_between_def ex_blinds_def)
  have some: "CurrentPlayer ex_allin = Some ((ex_state 1 0 100)\<lparr>allin := True\<rparr>)"
    by (simp add: CurrentPlayer_def ex_allin_def ex_blinds_def)
  have act: "action ex_between = - 1"
    by (simp add: ex_between_def)
  show ?thesis
    using accessors_without_current_player [of ex_between "\<lambda>os r. 2"]
      accessors_without_current_player [of ex_allin] none some act
    by simp
qed

section \<open>Side pots decompose the pot\<close>

text \<open>
  Two pots of a nine-seat table. In the first, seats 0 and 1 are all-in for 5 and 20 and
  seat 2 has put in 50 of its 100 chips. In the second nobody is all-in: seats 0, 1 and 2
  folded after one chip each, seats 6 and 8 put in 53.
\<close>

definition ex_pot3 :: Pot where
  "ex_pot3 = [(0, 5), (1, 20), (2, 50), (3, 0), (4, 0), (5, 0), (6, 0), (7, 0), (8, 0)]"

definition ex_begin3 :: "(int \<times> int) list" where
  "ex_begin3 = [(0, 5), (1, 20), (2, 100)]"

definition ex_pot_folds :: Pot where
  "ex_pot_folds = [(0, 1), (1, 1), (2, 1), (3, 0), (4, 0), (5, 0), (6, 53), (7, 0), (8, 53)]"

definition ex_begin_folds :: "(int \<times> int) list" where
  "ex_begin_folds =
     [(0, 100), (1, 100), (2, 100), (4, 100), (5, 100), (6, 100), (8, 100)]"

text \<open>
  What one contribution \<open>c\<close> puts into the pot of the amount \<open>a\<close> (after \<open>l\<close>), and
  into the pots of all the amounts \<open>as\<close> after \<open>l\<close> together.
\<close>

definition level_share :: "int \<Rightarrow> int \<Rightarrow> int \<Rightarrow> int" where
  "level_share l a c =
     (if c > l \<and> c \<ge> a then a - l else if c > l \<and> c < a then c - l else 0)"

fun shares :: "int \<Rightarrow> int list \<Rightarrow> int \<Rightarrow> int" where
  "shares l [] c = 0"
| "shares l (a # as) c = level_share l a c + shares a as c"

lemma index0_Nil: "index0 [] k = 0"
  by (simp add: index0_def)

lemma index0_Cons: "index0 ((s, c) # p) k = (if k = s then c else index0 p k)"
  by (simp add: index0_def)

lemma index0_absent: "k \<notin> fst ` set p \<Longrightarrow> index0 p k = 0"
proof -
  assume "k \<notin> fst ` set p"
  then have "map_of p k = None" by (simp add: map_of_eq_None_iff)
  then show ?thesis by (simp add: index0_def)
qed

lemma index0_update: "index0 (AList.update k v m) k' = (if k' = k then v else index0 m k')"
  by (simp add: index0_def update_conv')

lemma fold_chips:
  "fold (\<lambda>(seat, c) total. total + c) p (a :: int) = a + sum_list (map snd p)"
  by (induction p arbitrary: a) auto

lemma Pot_Chips_sum: "Pot_Chips p = sum_list (map snd p)"
  by (simp add: Pot_Chips_def fold_chips)

lemma sum_update:
  "sum_list (map snd (AList.update k v m)) = sum_list (map snd m) - index0 m k + v"
  by (induction m) (auto simp: index0_Nil index0_Cons)

lemma index0_add_contributions:
  "distinct (map fst bp) \<Longrightarrow>
   index0 (add_contributions bp target) s = index0 target s + index0 bp s"
proof (induction bp arbitrary: target)
  case Nil
  then show ?case by (simp add: add_contributions_def index0_Nil)
next
  case (Cons e rest)
  obtain k c where e: "e = (k, c)" by (cases e)
  have d: "distinct (map fst rest)" and nk: "k \<notin> fst ` set rest"
    using Cons.prems e by auto
  have step: "add_contributions ((k, c) # rest) target =
              add_contributions rest (AList.update k (index0 target k + c) target)"
    by (simp add: add_contributions_def)
  show ?case
    using Cons.IH [OF d, of "AList.update k (index0 target k + c) target"] nk
    by (simp add: step e index0_update index0_Cons index0_absent)
qed

lemma Pot_Chips_add_contributions:
  "Pot_Chips (add_contributions bp target) = Pot_Chips target + Pot_Chips bp"
proof (induction bp arbitrary: target)
  case Nil
  then show ?case by (simp add: add_contributions_def Pot_Chips_sum)
next
  case (Cons e rest)
  obtain k c where e: "e = (k, c)" by (cases e)
  have step: "add_contributions ((k, c) # rest) target =
              add_contributions rest (AList.update k (index0 target k + c) target)"
    by (simp add: add_contributions_def)
  show ?case
    using Cons.IH [of "AList.update k (index0 target k + c) target"]
    by (simp add: step e Pot_Chips_sum sum_update)
qed

lemma merge_into_last:
  "acc \<noteq> [] \<Longrightarrow>
   sum_list (map f (acc[length acc - 1 := g (acc ! (length acc - 1))])) =
   sum_list (map f (butlast acc)) + (f (g (last acc)) :: int)"
  by (induction acc rule: rev_induct) auto

lemma sum_merge_pots:
  assumes "\<And>bp target. bp \<in> set bps \<Longrightarrow> f (add_contributions bp target) = f target + f bp"
    and "i = 0 \<or> acc \<noteq> []"
  shows "sum_list (map f (merge_pots b i l acc bps)) =
         sum_list (map f acc) + sum_list (map (f :: Pot \<Rightarrow> int) bps)"
  using assms
proof (induction bps arbitrary: i l acc)
  case Nil
  then show ?case by simp
next
  case (Cons bp bps)
  have addf: "\<And>q target. q \<in> set bps \<Longrightarrow> f (add_contributions q target) = f target + f q"
    using Cons.prems(1) by simp
  show ?case
  proof (cases "l \<or> i = 0")
    case True
    then show ?thesis
      using Cons.IH [OF addf, of "i + 1" "acc @ [bp]" "hasAllin b acc bp"]
      by (auto simp: Let_def)
  next
    case False
    then have ne: "acc \<noteq> []" using Cons.prems(2) by simp
    define acc' where "acc' = acc[length acc - 1 := add_contributions bp (acc ! (length acc - 1))]"
    have "sum_list (map f acc') = sum_list (map f (butlast acc)) + f (add_contributions bp (last acc))"
      unfolding acc'_def using ne by (rule merge_into_last)
    also have "\<dots> = sum_list (map f (butlast acc)) + f (last acc) + f bp"
      using Cons.prems(1) [of bp "last acc"] by simp
    also have "\<dots> = sum_list (map f (butlast acc @ [last acc])) + f bp"
      by simp
    finally have upd: "sum_list (map f acc') = sum_list (map f acc) + f bp"
      using ne by simp
    have ne': "acc' \<noteq> []"
      using ne by (simp add: acc'_def)
    have "merge_pots b i l acc (bp # bps) = merge_pots b (i + 1) (hasAllin b acc bp) acc' bps"
      using False by (simp add: Let_def acc'_def)
    then show ?thesis
      using upd Cons.IH [OF addf, of "i + 1" acc' "hasAllin b acc bp"] ne'
      by simp
  qed
qed

lemma side_pot_Nil: "side_pot [] l a = []"
  by (simp add: side_pot_def map_filter_simps)

lemma side_pot_Cons:
  "side_pot ((s, c) # p) l a =
     (if c > l \<and> c \<ge> a then (s, a - l) # side_pot p l a
      else if c > l \<and> c < a then (s, c - l) # side_pot p l a
      else side_pot p l a)"
  by (simp add: side_pot_def map_filter_simps)

lemma map_fst_side_pot:
  "map fst (side_pot p l a) = map fst (filter (\<lambda>(s, c). c > l) p)"
proof (induction p)
  case Nil
  then show ?case by (simp add: side_pot_Nil)
next
  case (Cons e p)
  obtain s c where e: "e = (s, c)" by (cases e)
  show ?case using Cons by (simp add: e side_pot_Cons)
qed

lemma keys_side_pot: "fst ` set (side_pot p l a) \<subseteq> fst ` set p"
proof -
  have "set (map fst (side_pot p l a)) \<subseteq> set (map fst p)"
    unfolding map_fst_side_pot by auto
  then show ?thesis by simp
qed

lemma distinct_side_pot: "distinct (map fst p) \<Longrightarrow> distinct (map fst (side_pot p l a))"
  unfolding map_fst_side_pot by (rule distinct_map_filter)

lemma index0_side_pot:
  "distinct (map fst p) \<Longrightarrow>
   index0 (side_pot p l a) s = (case map_of p s of None \<Rightarrow> 0 | Some c \<Rightarrow> level_share l a c)"
proof (induction p)
  case Nil
  then show ?case by (simp add: side_pot_Nil index0_Nil)
next
  case (Cons e p)
  obtain k c where e: "e = (k, c)" by (cases e)
  have "k \<notin> fst ` set (side_pot p l a)"
    using Cons.prems keys_side_pot [of p l a] e by auto
  then have absent: "index0 (side_pot p l a) k = 0"
    by (rule index0_absent)
  show ?case
    using Cons e absent
    by (simp add: side_pot_Cons index0_Cons level_share_def)
qed

lemma Pot_Chips_side_pot:
  "Pot_Chips (side_pot p l a) = sum_list (map (\<lambda>(s, c). level_share l a c) p)"
  by (induction p) (auto simp: side_pot_Nil side_pot_Cons Pot_Chips_sum level_share_def)

lemma shares_below: "sorted_wrt (<) (l # as) \<Longrightarrow> c \<le> l \<Longrightarrow> shares l as c = 0"
proof (induction as arbitrary: l)
  case Nil
  then show ?case by simp
next
  case (Cons a as)
  have "c \<le> a" and "sorted_wrt (<) (a # as)"
    using Cons.prems by auto
  then have "shares a as c = 0" using Cons.IH by blast
  then show ?case using Cons.prems by (simp add: level_share_def)
qed

lemma shares_member:
  "sorted_wrt (<) (l # as) \<Longrightarrow> c \<in> set (l # as) \<Longrightarrow> shares l as c = c - l"
proof (induction as arbitrary: l)
  case Nil
  then show ?case by simp
next
  case (Cons a as)
  have chain: "sorted_wrt (<) (a # as)" and la: "l < a"
    using Cons.prems(1) by auto
  show ?case
  proof (cases "c = l")
    case True
    then have "shares a as c = 0"
      using shares_below [OF chain, of c] la by simp
    then show ?thesis using True by (simp add: level_share_def)
  next
    case False
    then have mem: "c \<in> set (a # as)" using Cons.prems(2) by simp
    then have "a \<le> c" using chain by auto
    moreover have "shares a as c = c - a" using Cons.IH [OF chain mem] .
    ultimately show ?thesis using la by (simp add: level_share_def)
  qed
qed

lemma index0_bucket_pots:
  "distinct (map fst p) \<Longrightarrow>
   sum_list (map (\<lambda>sp. index0 sp s) (bucket_pots p l as)) =
     (case map_of p s of None \<Rightarrow> 0 | Some c \<Rightarrow> shares l as c)"
  by (induction as arbitrary: l) (auto simp: index0_side_pot split: option.splits)

lemma Pot_Chips_bucket_pots:
  "sum_list (map Pot_Chips (bucket_pots p l as)) = sum_list (map (\<lambda>(s, c). shares l as c) p)"
proof (induction as arbitrary: l)
  case Nil
  then show ?case by (induction p) auto
next
  case (Cons a as)
  have "sum_list (map (\<lambda>(s, c). level_share l a c) p) + sum_list (map (\<lambda>(s, c). shares a as c) p)
        = sum_list (map (\<lambda>(s, c). shares l (a # as) c) p)"
    by (induction p) auto
  then show ?case using Cons by (simp add: Pot_Chips_side_pot)
qed

lemma distinct_bucket_pots:
  "distinct (map fst p) \<Longrightarrow> bp \<in> set (bucket_pots p l as) \<Longrightarrow> distinct (map fst bp)"
  by (induction as arbitrary: l) (auto simp: distinct_side_pot)

lemma fold_found: "fold (\<lambda>a found. found \<or> a = c) amounts b = (b \<or> c \<in> set amounts)"
  by (induction amounts arbitrary: b) auto

lemma set_amounts_loop:
  "set (amounts_loop p am) = set am \<union> {c \<in> snd ` set p. c \<noteq> 0}"
  by (induction p am rule: amounts_loop.induct) (auto simp: fold_found Let_def)

lemma distinct_amounts_loop: "distinct am \<Longrightarrow> distinct (amounts_loop p am)"
  by (induction p am rule: amounts_loop.induct) (auto simp: fold_found Let_def)

lemma amounts_chain:
  assumes "\<forall>c \<in> snd ` set p. 0 \<le> c"
  shows "sorted_wrt (<) (0 # fst (Pot_sidePotAmounts p))"
proof -
  let ?A = "sort (amounts_loop p [])"
  have "distinct ?A" by (simp add: distinct_amounts_loop)
  then have "sorted_wrt (<) ?A" by (simp add: strict_sorted_iff)
  moreover have "\<forall>a \<in> set ?A. 0 < a"
    using assms by (auto simp: set_amounts_loop)
  ultimately show ?thesis by (simp add: Pot_sidePotAmounts_def)
qed

lemma index0_filter_nonzero:
  "distinct (map fst p) \<Longrightarrow> index0 (filter (\<lambda>(s, c). c \<noteq> 0) p) k = index0 p k"
proof (induction p)
  case Nil
  then show ?case by simp
next
  case (Cons e p)
  obtain s c where e: "e = (s, c)" by (cases e)
  have "s \<notin> fst ` set (filter (\<lambda>(s, c). c \<noteq> 0) p)"
    using Cons.prems e by auto
  then have "index0 (filter (\<lambda>(s, c). c \<noteq> 0) p) s = 0"
    by (rule index0_absent)
  then show ?case using Cons e by (simp add: index0_Cons)
qed

lemma Pot_Chips_filter_nonzero: "Pot_Chips (filter (\<lambda>(s, c). c \<noteq> 0) p) = Pot_Chips p"
  by (induction p) (auto simp: Pot_Chips_sum)

lemma SidePots_unfold:
  "fst (Pot_SidePots p b) =
     merge_pots b 0 False []
       (bucket_pots (snd (Pot_sidePotAmounts p)) 0 (fst (Pot_sidePotAmounts p)))"
  by (simp add: Pot_SidePots_def Let_def split: prod.splits)

lemma shares_of_entry:
  assumes "\<forall>c \<in> snd ` set p. 0 \<le> c"
    and "(s, c) \<in> set (snd (Pot_sidePotAmounts p))"
  shows "shares 0 (fst (Pot_sidePotAmounts p)) c = c"
proof -
  have "c \<noteq> 0" and "c \<in> snd ` set p"
    using assms(2) by (auto simp: Pot_sidePotAmounts_def intro: rev_image_eqI)
  then have "c \<in> set (fst (Pot_sidePotAmounts p))"
    by (simp add: Pot_sidePotAmounts_def set_amounts_loop)
  then show ?thesis
    using shares_member [OF amounts_chain [OF assms(1)], of c] by simp
qed

text \<open>
  C5. For a pot with nonnegative contributions and any begin-chips map, the side pots are a
  decomposition of the pot: their chip totals add up to the pot's chips, and for every seat
  its contributions to the side pots add up to its contribution to the pot.
\<close>

theorem SidePots_decomposition:
  assumes "distinct (map fst p)" and "\<forall>c \<in> snd ` set p. 0 \<le> c"
  shows "sum_list (map Pot_Chips (fst (Pot_SidePots p b))) = Pot_Chips p \<and>
         (\<forall>s. sum_list (map (\<lambda>sp. index0 sp s) (fst (Pot_SidePots p b))) = index0 p s)"
proof -
  let ?A = "fst (Pot_sidePotAmounts p)"
  let ?p' = "snd (Pot_sidePotAmounts p)"
  have p': "?p' = filter (\<lambda>(s, c). c \<noteq> 0) p"
    by (simp add: Pot_sidePotAmounts_def)
  have d': "distinct (map fst ?p')"
    unfolding p' using assms(1) by (rule distinct_map_filter)
  have total: "sum_list (map Pot_Chips (fst (Pot_SidePots p b))) = Pot_Chips p"
  proof -
    have "sum_list (map Pot_Chips (fst (Pot_SidePots p b))) =
          sum_list (map Pot_Chips (bucket_pots ?p' 0 ?A))"
      unfolding SidePots_unfold
      by (subst sum_merge_pots) (simp_all add: Pot_Chips_add_contributions)
    also have "\<dots> = sum_list (map (\<lambda>(s, c). shares 0 ?A c) ?p')"
      by (rule Pot_Chips_bucket_pots)
    also have "\<dots> = sum_list (map snd ?p')"
      by (rule arg_cong [where f = sum_list], rule map_cong)
         (auto simp: shares_of_entry [OF assms(2)])
    also have "\<dots> = Pot_Chips p"
      unfolding p' using Pot_Chips_filter_nonzero [of p] by (simp add: Pot_Chips_sum)
    finally show ?thesis .
  qed
  have seat: "sum_list (map (\<lambda>sp. index0 sp s) (fst (Pot_SidePots p b))) = index0 p s" for s
  proof -
    have "sum_list (map (\<lambda>sp. index0 sp s) (fst (Pot_SidePots p b))) =
          sum_list (map (\<lambda>sp. index0 sp s) (bucket_pots ?p' 0 ?A))"
      unfolding SidePots_unfold
      by (subst sum_merge_pots)
         (simp_all add: index0_add_contributions distinct_bucket_pots [OF d'])
    also have "\<dots> = (case map_of ?p' s of None \<Rightarrow> 0 | Some c \<Rightarrow> shares 0 ?A c)"
      using d' by (rule index0_bucket_pots)
    also have "\<dots> = index0 ?p' s"
      by (auto simp: index0_def shares_of_entry [OF assms(2)] split: option.splits
               dest: map_of_SomeD)
    also have "\<dots> = index0 p s"
      unfolding p' using assms(1) by (rule index0_filter_nonzero)
    finally show ?thesis .
  qed
  show ?thesis using total seat by simp
qed

theorem SidePots_decomposition_witness:
  "sum_list (map Pot_Chips (fst (Pot_SidePots ex_pot3 ex_begin3))) = Pot_Chips ex_pot3 \<and>
   Pot_Chips ex_pot3 = 75 \<and>
   length (fst (Pot_SidePots ex_pot3 ex_begin3)) = 3 \<and>
   (\<forall>s. sum_list (map (\<lambda>sp. index0 sp s) (fst (Pot_SidePots ex_pot3 ex_begin3))) =
        index0 ex_pot3 s)"
proof -
  have d: "distinct (map fst ex_pot3)"
    by (simp add: ex_pot3_def)
  have n: "\<forall>c \<in> snd ` set ex_pot3. 0 \<le> c"
    by (simp add: ex_pot3_def)
  have c: "Pot_Chips ex_pot3 = 75"
    by (simp add: ex_pot3_def Pot_Chips_def)
  have l: "length (fst (Pot_SidePots ex_pot3 ex_begin3)) = 3"
    by code_simp
  show ?thesis
    using SidePots_decomposition [OF d n, of ex_begin3] c l by simp
qed

section \<open>Side pots: buckets at the contribution levels, merged unless an all-in separates them\<close>

text \<open>
  The partition as the specification words it. The levels are the distinct nonzero
  contributions in ascending order. The bucket of a level \<open>hi\<close> (after the level \<open>lo\<close>,
  0 before the first) takes \<open>hi - lo\<close> from every seat that contributed at least \<open>hi\<close>
  and \<open>c - lo\<close> from a seat whose contribution \<open>c\<close> lies strictly between.
  A seat's cumulative contribution through bucket \<open>i\<close> is what it put into the buckets
  \<open>0 .. i\<close>; a bucket contains an all-in when the cumulative contribution of one of its
  seats equals that seat's begin chips. Bucket \<open>i\<close> is kept as a side pot of its own if it
  is the first or bucket \<open>i - 1\<close> contains an all-in; otherwise its contributions are
  added to the last side pot.
\<close>

definition spec_levels :: "Pot \<Rightarrow> int list" where
  "spec_levels p = sorted_list_of_set (set (filter (\<lambda>c. c \<noteq> 0) (map snd p)))"

definition spec_bucket :: "Pot \<Rightarrow> int \<Rightarrow> int \<Rightarrow> Pot" where
  "spec_bucket p lo hi =
     List.map_filter
       (\<lambda>(seat, c).
          if c \<ge> hi then Some (seat, hi - lo)
          else if lo < c \<and> c < hi then Some (seat, c - lo)
          else None)
       p"

fun spec_buckets_from :: "Pot \<Rightarrow> int \<Rightarrow> int list \<Rightarrow> Pot list" where
  "spec_buckets_from p lo [] = []"
| "spec_buckets_from p lo (hi # ls) = spec_bucket p lo hi # spec_buckets_from p hi ls"

definition spec_buckets :: "Pot \<Rightarrow> Pot list" where
  "spec_buckets p = spec_buckets_from p 0 (spec_levels p)"

definition cumulative :: "Pot list \<Rightarrow> nat \<Rightarrow> int \<Rightarrow> int" where
  "cumulative bs i seat = sum_list (map (\<lambda>b. index0 b seat) (take (Suc i) bs))"

definition bucket_allin :: "(int \<times> int) list \<Rightarrow> Pot list \<Rightarrow> nat \<Rightarrow> bool" where
  "bucket_allin begins bs i =
     list_ex (\<lambda>(seat, c). cumulative bs i seat = index0 begins seat) (bs ! i)"

fun spec_keep :: "(int \<times> int) list \<Rightarrow> Pot list \<Rightarrow> nat \<Rightarrow> Pot list" where
  "spec_keep begins bs 0 = []"
| "spec_keep begins bs (Suc i) =
     (if i = 0 \<or> bucket_allin begins bs (i - 1)
        then spec_keep begins bs i @ [bs ! i]
      else butlast (spec_keep begins bs i)
             @ [add_contributions (bs ! i) (last (spec_keep begins bs i))])"

definition spec_SidePots :: "Pot \<Rightarrow> (int \<times> int) list \<Rightarrow> Pot list" where
  "spec_SidePots p begins = spec_keep begins (spec_buckets p) (length (spec_buckets p))"

lemma levels_amounts: "fst (Pot_sidePotAmounts p) = spec_levels p"
proof -
  let ?A = "sort (amounts_loop p [])"
  have "sorted ?A" "distinct ?A" by (simp_all add: distinct_amounts_loop)
  moreover have "set ?A = set (filter (\<lambda>c. c \<noteq> 0) (map snd p))"
    by (auto simp: set_amounts_loop)
  ultimately show ?thesis
    unfolding spec_levels_def Pot_sidePotAmounts_def
    by (metis fst_conv sorted_list_of_set.idem_if_sorted_distinct)
qed

lemma side_pot_spec_bucket:
  assumes "0 \<le> lo" and "lo < hi"
  shows "side_pot (filter (\<lambda>(s, c). c \<noteq> 0) p) lo hi = spec_bucket p lo hi"
proof (induction p)
  case Nil
  then show ?case by (simp add: side_pot_Nil spec_bucket_def map_filter_simps)
next
  case (Cons e p)
  obtain s c where e: "e = (s, c)" by (cases e)
  have "spec_bucket ((s, c) # p) lo hi =
          (if c \<ge> hi then (s, hi - lo) # spec_bucket p lo hi
           else if lo < c \<and> c < hi then (s, c - lo) # spec_bucket p lo hi
           else spec_bucket p lo hi)"
    by (simp add: spec_bucket_def map_filter_simps)
  then show ?case
    using Cons assms by (auto simp: e side_pot_Cons)
qed

lemma bucket_pots_spec:
  assumes "0 \<le> lo" and "sorted_wrt (<) (lo # ls)"
  shows "bucket_pots (filter (\<lambda>(s, c). c \<noteq> 0) p) lo ls = spec_buckets_from p lo ls"
  using assms
proof (induction ls arbitrary: lo)
  case Nil
  then show ?case by simp
next
  case (Cons hi ls)
  have "lo < hi" and "0 \<le> hi" and "sorted_wrt (<) (hi # ls)"
    using Cons.prems by auto
  then show ?case
    using Cons.IH [of hi] Cons.prems(1) by (simp add: side_pot_spec_bucket)
qed

lemma buckets_spec:
  assumes "\<forall>c \<in> snd ` set p. 0 \<le> c"
  shows "bucket_pots (snd (Pot_sidePotAmounts p)) 0 (fst (Pot_sidePotAmounts p)) = spec_buckets p"
proof -
  have "sorted_wrt (<) (0 # spec_levels p)"
    using amounts_chain [OF assms] by (simp add: levels_amounts)
  then show ?thesis
    unfolding spec_buckets_def levels_amounts
    using bucket_pots_spec [of 0 "spec_levels p" p]
    by (simp add: Pot_sidePotAmounts_def)
qed

lemma fold_total:
  "fold (\<lambda>s total. total + index0 s seat) sps (c :: int) =
   c + sum_list (map (\<lambda>s. index0 s seat) sps)"
  by (induction sps arbitrary: c) auto

lemma hasAllin_ex:
  "hasAllin begins sps q =
   list_ex (\<lambda>(seat, c). c + sum_list (map (\<lambda>s. index0 s seat) sps) = index0 begins seat) q"
proof -
  define F where "F = (\<lambda>(seat, c) has.
           (let totalChips = fold (\<lambda>s total. total + index0 s seat) sps c
            in if totalChips = index0 begins seat then True else has))"
  define P where "P = (\<lambda>(seat, c). c + sum_list (map (\<lambda>s. index0 s seat) sps) = index0 begins seat)"
  have F_eq: "F e h = (h \<or> P e)" for e h
    by (cases e) (auto simp: F_def P_def fold_total Let_def)
  have "fold F q h = (h \<or> list_ex P q)" for h
  proof (induction q arbitrary: h)
    case Nil
    then show ?case by simp
  next
    case (Cons e q)
    have "fold F (e # q) h = fold F q (F e h)" by simp
    also have "\<dots> = (F e h \<or> list_ex P q)" by (rule Cons.IH)
    also have "\<dots> = (h \<or> list_ex P (e # q))" by (auto simp: F_eq)
    finally show ?case .
  qed
  from this [of False] show ?thesis
    by (simp add: hasAllin_def F_def P_def)
qed

lemma spec_keep_nonempty: "0 < i \<Longrightarrow> spec_keep begins bs i \<noteq> []"
  by (cases i) auto

lemma spec_keep_seat:
  assumes "\<forall>q \<in> set bs. distinct (map fst q)" and "i \<le> length bs"
  shows "sum_list (map (\<lambda>sp. index0 sp seat) (spec_keep begins bs i)) =
         sum_list (map (\<lambda>q. index0 q seat) (take i bs))"
  using assms(2)
proof (induction i)
  case 0
  then show ?case by simp
next
  case (Suc i)
  have i: "i < length bs" using Suc.prems by simp
  then have d: "distinct (map fst (bs ! i))" using assms(1) by simp
  have IH: "sum_list (map (\<lambda>sp. index0 sp seat) (spec_keep begins bs i)) =
            sum_list (map (\<lambda>q. index0 q seat) (take i bs))"
    using Suc by simp
  have tk: "take (Suc i) bs = take i bs @ [bs ! i]"
    using i by (simp add: take_Suc_conv_app_nth)
  show ?case
  proof (cases "i = 0 \<or> bucket_allin begins bs (i - 1)")
    case True
    then show ?thesis using IH tk by simp
  next
    case False
    then have "spec_keep begins bs i \<noteq> []" by (simp add: spec_keep_nonempty)
    then have split: "spec_keep begins bs i = butlast (spec_keep begins bs i) @ [last (spec_keep begins bs i)]"
      by simp
    have "sum_list (map (\<lambda>sp. index0 sp seat) (spec_keep begins bs i)) =
          sum_list (map (\<lambda>sp. index0 sp seat) (butlast (spec_keep begins bs i)))
            + index0 (last (spec_keep begins bs i)) seat"
      by (subst split) simp
    then show ?thesis
      using False IH tk by (simp add: index0_add_contributions [OF d])
  qed
qed

lemma hasAllin_bucket_allin:
  assumes "\<forall>q \<in> set bs. distinct (map fst q)" and "i < length bs"
  shows "hasAllin begins (spec_keep begins bs i) (bs ! i) = bucket_allin begins bs i"
proof -
  have d: "distinct (map fst (bs ! i))" using assms by simp
  have tk: "take (Suc i) bs = take i bs @ [bs ! i]"
    using assms(2) by (simp add: take_Suc_conv_app_nth)
  have "c + sum_list (map (\<lambda>s. index0 s seat) (spec_keep begins bs i)) = cumulative bs i seat"
    if "(seat, c) \<in> set (bs ! i)" for seat c
  proof -
    have "map_of (bs ! i) seat = Some c" using d that by simp
    then have "index0 (bs ! i) seat = c" by (simp add: index0_def)
    then show ?thesis
      using spec_keep_seat [OF assms(1), of i seat begins] assms(2)
      by (simp add: cumulative_def tk)
  qed
  then have "(case e of (seat, c) \<Rightarrow>
                 c + sum_list (map (\<lambda>s. index0 s seat) (spec_keep begins bs i)) = index0 begins seat) =
             (case e of (seat, c) \<Rightarrow> cumulative bs i seat = index0 begins seat)"
    if "e \<in> set (bs ! i)" for e
    using that by (cases e) simp
  then show ?thesis
    unfolding hasAllin_ex bucket_allin_def by (intro list_ex_cong) simp_all
qed

lemma merge_pots_step:
  "merge_pots begins i l acc (q # rest) =
   merge_pots begins (Suc i) (hasAllin begins acc q)
     (if l \<or> i = 0 then acc @ [q]
      else acc[length acc - 1 := add_contributions q (acc ! (length acc - 1))])
     rest"
  by (simp add: Let_def)

lemma merge_pots_spec_keep:
  assumes "\<forall>q \<in> set bs. distinct (map fst q)"
    and "i \<le> length bs"
    and "0 < i \<longrightarrow> l = bucket_allin begins bs (i - 1)"
  shows "merge_pots begins i l (spec_keep begins bs i) (drop i bs) =
         spec_keep begins bs (length bs)"
  using assms(2,3)
proof (induction "length bs - i" arbitrary: i l)
  case 0
  then show ?case by simp
next
  case (Suc n)
  then have i: "i < length bs" by simp
  have dr: "drop i bs = bs ! i # drop (Suc i) bs"
    using i by (simp add: Cons_nth_drop_Suc)
  have has: "hasAllin begins (spec_keep begins bs i) (bs ! i) = bucket_allin begins bs i"
    using assms(1) i by (rule hasAllin_bucket_allin)
  have cond: "(l \<or> i = 0) = (i = 0 \<or> bucket_allin begins bs (i - 1))"
    using Suc.prems(2) by auto
  have next_acc:
    "(if l \<or> i = 0 then spec_keep begins bs i @ [bs ! i]
      else (spec_keep begins bs i)[length (spec_keep begins bs i) - 1 :=
             add_contributions (bs ! i)
               (spec_keep begins bs i ! (length (spec_keep begins bs i) - 1))]) =
     spec_keep begins bs (Suc i)"
  proof (cases "l \<or> i = 0")
    case True
    then have "spec_keep begins bs (Suc i) = spec_keep begins bs i @ [bs ! i]"
      using cond by simp
    then show ?thesis using True by (simp only: if_True)
  next
    case False
    then have ne: "spec_keep begins bs i \<noteq> []" by (simp add: spec_keep_nonempty)
    have upd: "acc \<noteq> [] \<Longrightarrow>
               acc[length acc - 1 := g (acc ! (length acc - 1))] = butlast acc @ [g (last acc)]"
      for acc :: "Pot list" and g
      by (induction acc rule: rev_induct) auto
    have "spec_keep begins bs (Suc i) =
          butlast (spec_keep begins bs i)
            @ [add_contributions (bs ! i) (last (spec_keep begins bs i))]"
      using False cond by simp
    then show ?thesis
      using False upd [OF ne, of "add_contributions (bs ! i)"] by (simp only: if_False)
  qed
  have "merge_pots begins i l (spec_keep begins bs i) (drop i bs) =
        merge_pots begins (Suc i) (bucket_allin begins bs i) (spec_keep begins bs (Suc i))
          (drop (Suc i) bs)"
    by (simp only: dr merge_pots_step next_acc has)
  also have "\<dots> = spec_keep begins bs (length bs)"
    using Suc.hyps(1) [of "Suc i" "bucket_allin begins bs i"] Suc.hyps(2) i by simp
  finally show ?case .
qed

lemma SidePots_refines_spec:
  assumes "distinct (map fst p)" and "\<forall>c \<in> snd ` set p. 0 \<le> c"
  shows "fst (Pot_SidePots p begins) = spec_SidePots p begins"
proof -
  have d': "distinct (map fst (snd (Pot_sidePotAmounts p)))"
    using assms(1) by (simp add: Pot_sidePotAmounts_def distinct_map_filter)
  have "\<forall>q \<in> set (spec_buckets p). distinct (map fst q)"
    using distinct_bucket_pots [OF d'] buckets_spec [OF assms(2)] by metis
  then show ?thesis
    unfolding SidePots_unfold buckets_spec [OF assms(2)] spec_SidePots_def
    using merge_pots_spec_keep [of "spec_buckets p" 0 False begins] by simp
qed

text \<open>
  C4. \<open>SidePots\<close> partitions the contributions into the buckets of the distinct nonzero
  contribution levels and keeps a bucket as a side pot of its own only if it is the first
  or the bucket before it contains a seat whose cumulative contribution equals its begin
  chips. For the contributions 0:5, 1:20, 2:50 with begin chips 0:5, 1:20, 2:100 it
  returns the three pots 0:5 1:5 2:5, then 1:15 2:15, then 2:30; for the contributions
  0:1, 1:1, 2:1, 6:53, 8:53 with begin chips 100 each it returns one pot, of 109 chips.
\<close>

theorem SidePots_buckets_and_scenarios:
  "(distinct (map fst p) \<and> (\<forall>c \<in> snd ` set p. 0 \<le> c) \<longrightarrow>
      fst (Pot_SidePots p begins) = spec_SidePots p begins) \<and>
   fst (Pot_SidePots ex_pot3 ex_begin3) =
     [[(0, 5), (1, 5), (2, 5)], [(1, 15), (2, 15)], [(2, 30)]] \<and>
   fst (Pot_SidePots ex_pot_folds ex_begin_folds) =
     [[(0, 1), (1, 1), (2, 1), (6, 53), (8, 53)]] \<and>
   map Pot_Chips (fst (Pot_SidePots ex_pot_folds ex_begin_folds)) = [109]"
proof -
  have s3: "fst (Pot_SidePots ex_pot3 ex_begin3) =
              [[(0, 5), (1, 5), (2, 5)], [(1, 15), (2, 15)], [(2, 30)]]"
    by code_simp
  have s4: "fst (Pot_SidePots ex_pot_folds ex_begin_folds) =
              [[(0, 1), (1, 1), (2, 1), (6, 53), (8, 53)]]"
    by code_simp
  have c4: "map Pot_Chips (fst (Pot_SidePots ex_pot_folds ex_begin_folds)) = [109]"
    unfolding s4 by (simp add: Pot_Chips_def)
  show ?thesis
    using SidePots_refines_spec [of p begins] s3 s4 c4 by blast
qed

theorem SidePots_buckets_and_scenarios_witness:
  "spec_levels ex_pot3 = [5, 20, 50] \<and>
   fst (Pot_SidePots ex_pot3 ex_begin3) = spec_SidePots ex_pot3 ex_begin3 \<and>
   spec_SidePots ex_pot3 ex_begin3 =
     [[(0, 5), (1, 5), (2, 5)], [(1, 15), (2, 15)], [(2, 30)]]"
proof -
  have d: "distinct (map fst ex_pot3)"
    by (simp add: ex_pot3_def)
  have n: "\<forall>c \<in> snd ` set ex_pot3. 0 \<le> c"
    by (simp add: ex_pot3_def)
  have l: "spec_levels ex_pot3 = [5, 20, 50]"
    by code_simp
  have eq: "fst (Pot_SidePots ex_pot3 ex_begin3) = spec_SidePots ex_pot3 ex_begin3"
    and res: "fst (Pot_SidePots ex_pot3 ex_begin3) =
                [[(0, 5), (1, 5), (2, 5)], [(1, 15), (2, 15)], [(2, 30)]]"
    using SidePots_buckets_and_scenarios [of ex_pot3 ex_begin3] d n by blast+
  show ?thesis
    using l eq res by (simp only: simp_thms)
qed

section \<open>Splitting a pot among tied winners\<close>

text \<open>
  The seats in the order \<open>resultsFromWinners\<close> checks them from its step \<open>j\<close> on:
  \<open>button % 10\<close> first, then one seat up at a time, modulo 10. The seats that get an
  extra chip are the first \<open>r\<close> winning seats in that order.
\<close>

definition button_order :: "int \<Rightarrow> nat \<Rightarrow> int list" where
  "button_order b j = map (\<lambda>i. (b + int i) mod 10) [j ..< 10]"

definition extra_seats :: "int \<Rightarrow> 'h Hands \<Rightarrow> int \<Rightarrow> int list" where
  "extra_seats b winners r =
     take (nat r) (filter (\<lambda>s. s \<in> fst ` set winners) (button_order b 0))"

lemma go_div_nonneg: "0 \<le> a \<Longrightarrow> 0 < b \<Longrightarrow> go_div a b = a div b"
  by (cases "a = 0") (simp_all add: go_div_def)

lemma go_mod_nonneg: "0 \<le> a \<Longrightarrow> 0 < b \<Longrightarrow> go_mod a b = a mod b"
  by (simp add: go_mod_def go_div_nonneg minus_mult_div_eq_mod)

lemma update_fresh: "k \<notin> fst ` set xs \<Longrightarrow> AList.update k v xs = xs @ [(k, v)]"
  by (induction xs) auto

lemma fold_update_fresh:
  "distinct (map fst ws) \<Longrightarrow> fst ` set acc \<inter> fst ` set ws = {} \<Longrightarrow>
   fold (\<lambda>(seat, hand) res. AList.update seat (g hand) res) ws acc =
   acc @ map (\<lambda>(seat, hand). (seat, g hand)) ws"
proof (induction ws arbitrary: acc)
  case Nil
  then show ?case by simp
next
  case (Cons w ws)
  obtain seat hand where w: "w = (seat, hand)" by (cases w)
  have fresh: "seat \<notin> fst ` set acc" using Cons.prems(2) w by auto
  have d: "distinct (map fst ws)" using Cons.prems(1) by simp
  have disj: "fst ` set (acc @ [(seat, g hand)]) \<inter> fst ` set ws = {}"
    using Cons.prems w by auto
  show ?case
    using Cons.IH [OF d disj] by (simp add: w update_fresh [OF fresh])
qed

lemma check_seat_eq:
  "check_seat ws s res rem = (if s \<in> set ws then (add_chip s res, rem - 1) else (res, rem))"
  by (induction ws) auto

lemma button_order_step:
  "j < 10 \<Longrightarrow> button_order b j = (b + int j) mod 10 # button_order b (Suc j)"
  by (simp add: button_order_def upt_conv_Cons)

lemma remainder_loop_returns:
  assumes "j \<le> 10" and "0 \<le> rem"
    and "nat rem \<le> length (filter (\<lambda>s. s \<in> set ws) (button_order b j))"
  shows "remainder_loop ws ((b + int j) mod 10) res rem =
         Some (fold add_chip (take (nat rem) (filter (\<lambda>s. s \<in> set ws) (button_order b j))) res)"
  using assms
proof (induction "10 - j" arbitrary: j res rem)
  case 0
  then have "j = 10" by simp
  then have "rem = 0" using "0.prems" by (simp add: button_order_def)
  then show ?case by (subst remainder_loop.simps) simp
next
  case (Suc n)
  then have j: "j < 10" by simp
  show ?case
  proof (cases "rem = 0")
    case True
    then show ?thesis by (subst remainder_loop.simps) simp
  next
    case False
    then have pos: "0 < rem" using Suc.prems(2) by simp
    let ?s = "(b + int j) mod 10"
    have "go_mod (?s + 1) 10 = (?s + 1) mod 10"
      by (simp add: go_mod_nonneg)
    also have "\<dots> = (b + int j + 1) mod 10"
      by (simp add: mod_simps)
    also have "b + int j + 1 = b + int (Suc j)"
      by simp
    finally have nxt: "go_mod (?s + 1) 10 = (b + int (Suc j)) mod 10" .
    have n: "n = 10 - Suc j" using Suc.hyps(2) by simp
    have j': "Suc j \<le> 10" using j by simp
    show ?thesis
    proof (cases "?s \<in> set ws")
      case True
      have len: "nat (rem - 1) \<le> length (filter (\<lambda>s. s \<in> set ws) (button_order b (Suc j)))"
        using Suc.prems(3) True pos by (simp add: button_order_step [OF j])
      have tk: "take (nat rem) (filter (\<lambda>s. s \<in> set ws) (button_order b j)) =
                ?s # take (nat (rem - 1)) (filter (\<lambda>s. s \<in> set ws) (button_order b (Suc j)))"
        using True pos by (simp add: button_order_step [OF j] take_Cons' nat_diff_distrib)
      have "remainder_loop ws ?s res rem =
            remainder_loop ws ((b + int (Suc j)) mod 10) (add_chip ?s res) (rem - 1)"
        using False True by (subst remainder_loop.simps) (simp add: check_seat_eq nxt)
      then show ?thesis
        using Suc.hyps(1) [OF n j' _ len, of "add_chip ?s res"] pos tk by simp
    next
      case False
      have len: "nat rem \<le> length (filter (\<lambda>s. s \<in> set ws) (button_order b (Suc j)))"
        using Suc.prems(3) False by (simp add: button_order_step [OF j])
      have tk: "filter (\<lambda>s. s \<in> set ws) (button_order b j) =
                filter (\<lambda>s. s \<in> set ws) (button_order b (Suc j))"
        using False by (simp add: button_order_step [OF j])
      have "remainder_loop ws ?s res rem =
            remainder_loop ws ((b + int (Suc j)) mod 10) res rem"
        using False \<open>rem \<noteq> 0\<close> by (subst remainder_loop.simps) (simp add: check_seat_eq nxt)
      then show ?thesis
        using Suc.hyps(1) [OF n j' Suc.prems(2) len, of res] tk by simp
    qed
  qed
qed

lemma button_order_inj:
  assumes "i < 10" and "i' < 10" and "(b + int i) mod 10 = (b + int i') mod 10"
  shows "i = i'"
proof -
  have "10 dvd (b + int i) - (b + int i')"
    using assms(3) by (simp add: mod_eq_dvd_iff)
  then have "10 dvd int i - int i'" by simp
  then obtain k where k: "int i - int i' = 10 * k" by (auto simp: dvd_def)
  have "- 10 < 10 * k" and "10 * k < 10"
    using assms(1,2) k by linarith+
  then have "k = 0" by linarith
  then show ?thesis using k by simp
qed

lemma distinct_button_order: "distinct (button_order b 0)"
  unfolding button_order_def
proof (rule iffD2 [OF distinct_map], intro conjI)
  show "distinct [0 ..< 10]" by simp
  show "inj_on (\<lambda>i. (b + int i) mod 10) (set [0 ..< 10])"
    by (rule inj_onI) (simp add: button_order_inj)
qed

lemma set_button_order: "set (button_order b 0) = {0 ..< 10}"
proof (rule card_subset_eq)
  show "finite {0 ..< 10 :: int}" by simp
  show "set (button_order b 0) \<subseteq> {0 ..< 10}"
    by (auto simp: button_order_def)
  have "card (set (button_order b 0)) = length (button_order b 0)"
    using distinct_button_order by (rule distinct_card)
  then show "card (set (button_order b 0)) = card {0 ..< 10 :: int}"
    by (simp add: button_order_def)
qed

lemma winners_in_order:
  assumes "distinct (map fst winners)"
    and "\<forall>seat \<in> fst ` set winners. 0 \<le> seat \<and> seat < 10"
  shows "length (filter (\<lambda>s. s \<in> fst ` set winners) (button_order b 0)) = length winners"
proof -
  have "{x. x \<in> fst ` set winners} \<inter> set (button_order b 0) = set (map fst winners)"
    using assms(2) by (auto simp: set_button_order)
  then have "length (filter (\<lambda>s. s \<in> fst ` set winners) (button_order b 0)) =
             card (set (map fst winners))"
    using distinct_length_filter [OF distinct_button_order, of "\<lambda>s. s \<in> fst ` set winners" b]
    by simp
  also have "\<dots> = length winners"
    using distinct_card [OF assms(1)] by simp
  finally show ?thesis .
qed

lemma map_fst_fold_add_chip: "map fst (fold add_chip xs res) = map fst res"
proof (induction xs arbitrary: res)
  case Nil
  then show ?case by simp
next
  case (Cons x xs)
  have "map fst (add_chip x res) = map fst res"
    unfolding add_chip_def by (induction res) auto
  then show ?case using Cons by simp
qed

lemma map_of_add_chip:
  "map_of (add_chip s res) k =
     (if k = s then map_option (\<lambda>rs. case rs of [] \<Rightarrow> [] | r # rest \<Rightarrow> r\<lparr>Chips := Chips r + 1\<rparr> # rest)
                      (map_of res s)
      else map_of res k)"
  by (simp add: add_chip_def map_of_map_entry split: option.splits)

lemma map_of_fold_add_chip:
  "distinct xs \<Longrightarrow>
   map_of (fold add_chip xs res) k =
     (if k \<in> set xs
        then map_option (\<lambda>rs. case rs of [] \<Rightarrow> [] | r # rest \<Rightarrow> r\<lparr>Chips := Chips r + 1\<rparr> # rest)
               (map_of res k)
      else map_of res k)"
proof (induction xs arbitrary: res)
  case Nil
  then show ?case by simp
next
  case (Cons x xs)
  then have IH: "map_of (fold add_chip xs (add_chip x res)) k =
     (if k \<in> set xs
        then map_option (\<lambda>rs. case rs of [] \<Rightarrow> [] | r # rest \<Rightarrow> r\<lparr>Chips := Chips r + 1\<rparr> # rest)
               (map_of (add_chip x res) k)
      else map_of (add_chip x res) k)"
    by simp
  show ?case
    using Cons.prems by (auto simp: IH map_of_add_chip)
qed

text \<open>
  The order as the specification words it: from the first seat strictly after the button,
  modulo the number of seats.
\<close>

definition spec_extra_seats :: "int \<Rightarrow> nat \<Rightarrow> 'h Hands \<Rightarrow> int \<Rightarrow> int list" where
  "spec_extra_seats b numOfSeats winners r =
     take (nat r)
       (filter (\<lambda>s. s \<in> fst ` set winners)
          (map (\<lambda>i. (b + 1 + int i) mod int numOfSeats) [0 ..< numOfSeats]))"

lemma resultsFromWinners_general:
  assumes d: "distinct (map fst winners)" and ne: "winners \<noteq> []"
    and seats: "\<forall>seat \<in> fst ` set winners. 0 \<le> seat \<and> seat < 10"
    and c: "0 \<le> c" and b: "0 \<le> b"
  shows "\<exists>results.
           Pot_resultsFromWinners potNo winners c b f = Some (Inr results) \<and>
           map fst results = map fst winners \<and>
           (\<forall>(seat, hand) \<in> set winners.
              map_of results seat =
                Some [\<lparr>PotNo = potNo, Hand = hand,
                       Chips = c div int (length winners) +
                         (if seat \<in> set (extra_seats b winners (c mod int (length winners)))
                          then 1 else 0),
                       Share = f (int (length winners))\<rparr>]) \<and>
           distinct (extra_seats b winners (c mod int (length winners))) \<and>
           length (extra_seats b winners (c mod int (length winners))) =
             nat (c mod int (length winners))"
proof -
  let ?n = "int (length winners)"
  let ?r = "c mod ?n"
  let ?R = "\<lambda>hand. [\<lparr>PotNo = potNo, Hand = hand, Chips = go_div c ?n, Share = f ?n\<rparr>]"
  let ?res0 = "map (\<lambda>(seat, hand). (seat, ?R hand)) winners"
  let ?ws = "sort (map fst winners)"
  let ?xs = "extra_seats b winners ?r"
  have n: "0 < ?n" using ne by simp
  have r: "0 \<le> ?r" "?r < ?n" using n by simp_all
  have res0: "fold (\<lambda>(seat, hand) res. AList.update seat (?R hand) res) winners [] = ?res0"
    using fold_update_fresh [OF d, of "[]" ?R] by simp
  have ws: "set ?ws = fst ` set winners" by simp
  have len: "length (filter (\<lambda>s. s \<in> set ?ws) (button_order b 0)) = length winners"
    unfolding ws using d seats by (rule winners_in_order)
  have "nat ?r \<le> length (filter (\<lambda>s. s \<in> set ?ws) (button_order b 0))"
    unfolding len using r by linarith
  then have "remainder_loop ?ws ((b + int 0) mod 10) ?res0 ?r =
             Some (fold add_chip (take (nat ?r) (filter (\<lambda>s. s \<in> set ?ws) (button_order b 0))) ?res0)"
    using r(1) by (intro remainder_loop_returns) simp_all
  then have loop: "remainder_loop ?ws (go_mod b 10) ?res0 (go_mod c ?n) = Some (fold add_chip ?xs ?res0)"
    using b c n by (simp add: go_mod_nonneg extra_seats_def)
  have call: "Pot_resultsFromWinners potNo winners c b f = Some (Inr (fold add_chip ?xs ?res0))"
    using ne loop unfolding Pot_resultsFromWinners_def Let_def res0 by simp
  have keys: "map fst (fold add_chip ?xs ?res0) = map fst winners"
    by (simp add: map_fst_fold_add_chip case_prod_unfold)
  have dx: "distinct ?xs"
    unfolding extra_seats_def using distinct_button_order by simp
  have lx: "length ?xs = nat ?r"
    using winners_in_order [OF d seats, of b] r by (simp add: extra_seats_def)
  have entry: "map_of (fold add_chip ?xs ?res0) seat =
                Some [\<lparr>PotNo = potNo, Hand = hand,
                       Chips = c div ?n + (if seat \<in> set ?xs then 1 else 0),
                       Share = f ?n\<rparr>]"
    if "(seat, hand) \<in> set winners" for seat hand
  proof -
    have "map_of winners seat = Some hand" using d that by simp
    then have "map_of ?res0 seat = Some (?R hand)"
      by (simp add: map_of_map)
    then show ?thesis
      using c n by (simp add: map_of_fold_add_chip [OF dx] go_div_nonneg)
  qed
  show ?thesis
    using call keys entry dx lx by blast
qed

text \<open>Winners on seats 0, 4 and 5 of a table whose button is on seat 4.\<close>

definition ex_winners :: "nat Hands" where
  "ex_winners = [(0, Some 7), (4, Some 7), (5, Some 7)]"

text \<open>
  C2 (amended). When \<open>n\<close> winners on seats 0 to 9 share \<open>c\<close> chips, each receives
  \<open>c div n\<close>, and the \<open>c mod n\<close> remaining chips go one each to the first winning seats
  met from the button seat itself on (the button first, then upwards modulo 10). With a
  pot of 33, winners on seats 1 and 3 and the button on seat 2, each winner gets 16 and
  the extra chip goes to seat 3.
\<close>

theorem resultsFromWinners_from_button:
  "(distinct (map fst winners) \<and> winners \<noteq> [] \<and>
    (\<forall>seat \<in> fst ` set winners. 0 \<le> seat \<and> seat < 10) \<and> 0 \<le> c \<and> 0 \<le> b \<longrightarrow>
      (\<exists>results.
         Pot_resultsFromWinners potNo winners c b f = Some (Inr results) \<and>
         map fst results = map fst winners \<and>
         (\<forall>(seat, hand) \<in> set winners.
            map_of results seat =
              Some [\<lparr>PotNo = potNo, Hand = hand,
                     Chips = c div int (length winners) +
                       (if seat \<in> set (extra_seats b winners (c mod int (length winners)))
                        then 1 else 0),
                     Share = f (int (length winners))\<rparr>]) \<and>
         distinct (extra_seats b winners (c mod int (length winners))) \<and>
         length (extra_seats b winners (c mod int (length winners))) =
           nat (c mod int (length winners)))) \<and>
   Pot_resultsFromWinners 0 [(1, h1), (3, h3)] 33 2 highPotShare =
     Some (Inr [(1, [\<lparr>PotNo = 0, Hand = h1, Chips = 16, Share = SplitHigh\<rparr>]),
                (3, [\<lparr>PotNo = 0, Hand = h3, Chips = 17, Share = SplitHigh\<rparr>])])"
proof -
  have "Pot_resultsFromWinners 0 [(1, h1), (3, h3)] 33 2 highPotShare =
     Some (Inr [(1, [\<lparr>PotNo = 0, Hand = h1, Chips = 16, Share = SplitHigh\<rparr>]),
                (3, [\<lparr>PotNo = 0, Hand = h3, Chips = 17, Share = SplitHigh\<rparr>])])"
    by (simp add: Pot_resultsFromWinners_def go_div_def go_mod_def highPotShare_def
          remainder_loop.simps add_chip_def)
  then show ?thesis
    using resultsFromWinners_general [of winners c b potNo f] by blast
qed

theorem resultsFromWinners_from_button_witness:
  "extra_seats 4 ex_winners (35 mod 3) = [4, 5] \<and>
   (\<exists>results. Pot_resultsFromWinners 0 ex_winners 35 4 highPotShare = Some (Inr results) \<and>
      map_of results 0 = Some [\<lparr>PotNo = 0, Hand = Some 7, Chips = 11, Share = SplitHigh\<rparr>] \<and>
      map_of results 4 = Some [\<lparr>PotNo = 0, Hand = Some 7, Chips = 12, Share = SplitHigh\<rparr>] \<and>
      map_of results 5 = Some [\<lparr>PotNo = 0, Hand = Some 7, Chips = 12, Share = SplitHigh\<rparr>])"
proof -
  have hyps: "distinct (map fst ex_winners) \<and> ex_winners \<noteq> [] \<and>
      (\<forall>seat \<in> fst ` set ex_winners. 0 \<le> seat \<and> seat < 10) \<and> (0::int) \<le> 35 \<and> (0::int) \<le> 4"
    by (simp add: ex_winners_def)
  have extra: "extra_seats 4 ex_winners (35 mod 3) = [4, 5]"
    by code_simp
  have len: "int (length ex_winners) = 3"
    by (simp add: ex_winners_def)
  note gen = resultsFromWinners_from_button
    [of ex_winners 35 4 0 highPotShare, THEN conjunct1, THEN mp, OF hyps]
  then obtain results where
    ret: "Pot_resultsFromWinners 0 ex_winners 35 4 highPotShare = Some (Inr results)"
    and each: "\<forall>(seat, hand) \<in> set ex_winners.
            map_of results seat =
              Some [\<lparr>PotNo = 0, Hand = hand,
                     Chips = 35 div int (length ex_winners) +
                       (if seat \<in> set (extra_seats 4 ex_winners (35 mod int (length ex_winners)))
                        then 1 else 0),
                     Share = highPotShare (int (length ex_winners))\<rparr>]"
    by (elim exE conjE)
  have "map_of results 0 = Some [\<lparr>PotNo = 0, Hand = Some 7, Chips = 11, Share = SplitHigh\<rparr>]"
    and "map_of results 4 = Some [\<lparr>PotNo = 0, Hand = Some 7, Chips = 12, Share = SplitHigh\<rparr>]"
    and "map_of results 5 = Some [\<lparr>PotNo = 0, Hand = Some 7, Chips = 12, Share = SplitHigh\<rparr>]"
    using each unfolding len extra by (simp_all add: ex_winners_def highPotShare_def)
  then show ?thesis using ret extra by blast
qed

text \<open>
  As stated, with the extra chips going to the winning seats strictly after the button,
  the claim fails when the button seat itself is a winner: with a pot of 33, winners on
  seats 2 and 3 and the button on seat 2 (of six seats), the first winning seat strictly
  after the button is seat 3, but the extra chip goes to seat 2.
\<close>

theorem resultsFromWinners_button_first_counterexample:
  "spec_extra_seats 2 6 [(2, Some (1::nat)), (3, Some 2)] (33 mod 2) = [3] \<and>
   extra_seats 2 [(2, Some (1::nat)), (3, Some 2)] (33 mod 2) = [2] \<and>
   Pot_resultsFromWinners 0 [(2, Some (1::nat)), (3, Some 2)] 33 2 highPotShare =
     Some (Inr [(2, [\<lparr>PotNo = 0, Hand = Some 1, Chips = 17, Share = SplitHigh\<rparr>]),
                (3, [\<lparr>PotNo = 0, Hand = Some 2, Chips = 16, Share = SplitHigh\<rparr>])])"
  by code_simp

section \<open>Chip conservation during a hand\<close>

text \<open>
  What happens to a table between \<open>setUpHand\<close> and the payout, one event at a time:
  the forced bet of a seat and a straddle (both in \<open>setUpRound\<close>), an action of the
  player on the action seat (\<open>handleAction\<close> as \<open>Next\<close> calls it), the moves of the
  action seat (\<open>t.action = t.nextSeat(t.action+1, true)\<close> in \<open>Next\<close>,
  \<open>t.action = t.nextSeat(seat, true)\<close> in \<open>setUpRound\<close>), the step to the next round
  (\<open>t.round++\<close> and \<open>resetRoundPot\<close> in \<open>Next\<close>), and the resets of \<open>setUpRound\<close>
  (\<open>updatePots\<close>, \<open>resetActed\<close>, and \<open>t.minRaise = 0\<close> with \<open>resetCanRaise(-1)\<close>).
  A run applies a list of events and stops at the first error or panic. The statements
  below hold for every list of events, so for every order in which the code performs them.
\<close>

datatype event =
    EvForcedBet int int
  | EvStraddle int nat
  | EvAction Action int
  | EvNextSeat
  | EvStartSeat int
  | EvNextRound
  | EvUpdatePots
  | EvResetActed
  | EvResetRaise

definition step :: "(Config \<Rightarrow> int \<Rightarrow> int) \<Rightarrow> Table \<Rightarrow> event \<Rightarrow> error + Table" where
  "step fl t ev =
     (case ev of
        EvForcedBet seat c \<Rightarrow> forcedBet t seat c
      | EvStraddle seat category \<Rightarrow>
          (case doOneStraddleBet t seat category of Inl e \<Rightarrow> Inl e | Inr (t', posted) \<Rightarrow> Inr t')
      | EvAction a c \<Rightarrow> handleAction fl t (action t) a c
      | EvNextSeat \<Rightarrow>
          (case nextSeat t (action t + 1) True of Inl e \<Rightarrow> Inl e | Inr s \<Rightarrow> Inr (t\<lparr>action := s\<rparr>))
      | EvStartSeat seat \<Rightarrow>
          (case nextSeat t seat True of Inl e \<Rightarrow> Inl e | Inr s \<Rightarrow> Inr (t\<lparr>action := s\<rparr>))
      | EvNextRound \<Rightarrow> Inr (resetRoundPot (t\<lparr>roundNo := roundNo t + 1\<rparr>))
      | EvUpdatePots \<Rightarrow> Inr (updatePots t)
      | EvResetActed \<Rightarrow> Inr (resetActed t)
      | EvResetRaise \<Rightarrow> Inr (resetCanRaise (t\<lparr>minRaise := 0\<rparr>) (- 1)))"

fun run :: "(Config \<Rightarrow> int \<Rightarrow> int) \<Rightarrow> Table \<Rightarrow> event list \<Rightarrow> error + Table" where
  "run fl t [] = Inr t"
| "run fl t (ev # evs) = (case step fl t ev of Inl e \<Rightarrow> Inl e | Inr t' \<Rightarrow> run fl t' evs)"

definition stacks :: "Table \<Rightarrow> int" where
  "stacks t = sum_list (map (\<lambda>(s, p). chips p) (players t))"

definition total_chips :: "Table \<Rightarrow> int" where
  "total_chips t = stacks t + Pot_Chips (pot t)"

definition total_begin :: "Table \<Rightarrow> int" where
  "total_begin t = sum_list (map (\<lambda>(s, p). beginChips p) (players t))"

lemma sum_map_entry:
  "(\<And>q. g (f q) = (g q :: int)) \<Longrightarrow>
   sum_list (map (\<lambda>(s, p). g p) (AList.map_entry seat f ps)) = sum_list (map (\<lambda>(s, p). g p) ps)"
  by (induction ps) auto

lemma sum_map_all:
  "(\<And>s q. g (f s q) = (g q :: int)) \<Longrightarrow>
   sum_list (map (\<lambda>(s, p). g p) (map (\<lambda>(s, p). (s, f s p)) ps)) = sum_list (map (\<lambda>(s, p). g p) ps)"
  by (induction ps) auto

lemma sum_update_player:
  "map_of ps seat = Some p \<Longrightarrow>
   sum_list (map (\<lambda>(s, q). g q) (AList.update seat p' ps)) =
   sum_list (map (\<lambda>(s, q). g q) ps) - g p + (g p' :: int)"
  by (induction ps) (auto split: if_splits)

lemma stacks_modify_player:
  "(\<And>q. chips (f q) = chips q) \<Longrightarrow> stacks (modify_player t seat f) = stacks t"
  by (simp add: stacks_def modify_player_def sum_map_entry)

lemma begin_modify_player:
  "(\<And>q. beginChips (f q) = beginChips q) \<Longrightarrow> total_begin (modify_player t seat f) = total_begin t"
  by (simp add: total_begin_def modify_player_def sum_map_entry)

lemma pot_modify_player: "pot (modify_player t seat f) = pot t"
  by (simp add: modify_player_def)

lemma total_modify_player:
  "(\<And>q. chips (f q) = chips q) \<Longrightarrow> total_chips (modify_player t seat f) = total_chips t"
  by (simp add: total_chips_def stacks_modify_player pot_modify_player)

lemma chips_PlayerState_addToPot: "chips (PlayerState_addToPot q c d r) = chips q"
  by (simp add: PlayerState_addToPot_def)

lemma beginChips_PlayerState_addToPot: "beginChips (PlayerState_addToPot q c d r) = beginChips q"
  by (simp add: PlayerState_addToPot_def)

lemma Pot_Chips_contribute:
  "Pot_contribute p seat c = Inr p' \<Longrightarrow> Pot_Chips p' = Pot_Chips p + c"
  by (auto simp: Pot_contribute_def Pot_Chips_sum sum_update split: if_splits)

lemma addToPot_total:
  assumes "addToPot t seat c = Inr t'"
  shows "total_chips t' = total_chips t \<and> total_begin t' = total_begin t"
proof -
  obtain p where p: "map_of (players t) seat = Some p"
    using assms by (auto simp: addToPot_def split: option.splits)
  define c1 where "c1 = (if c \<ge> chips p then chips p else c)"
  define p2 where "p2 = (if c \<ge> chips p then p\<lparr>allin := True\<rparr> else p)\<lparr>chips := chips p - c1\<rparr>"
  obtain pot' where pot': "Pot_contribute (pot t) seat c1 = Inr pot'"
    and t': "t' = t\<lparr>players := AList.update seat p2 (players t), pot := pot'\<rparr>"
    using assms p by (auto simp: addToPot_def Let_def c1_def p2_def split: sum.splits if_splits)
  have "stacks t' = stacks t - c1"
    unfolding t' stacks_def using sum_update_player [OF p, of chips p2]
    by (simp add: p2_def)
  moreover have "Pot_Chips (pot t') = Pot_Chips (pot t) + c1"
    using Pot_Chips_contribute [OF pot'] by (simp add: t')
  moreover have "total_begin t' = total_begin t"
    unfolding t' total_begin_def using sum_update_player [OF p, of beginChips p2]
    by (simp add: p2_def)
  ultimately show ?thesis by (simp add: total_chips_def)
qed

definition same_chips :: "Table \<Rightarrow> Table \<Rightarrow> bool" where
  "same_chips t t' = (total_chips t' = total_chips t \<and> total_begin t' = total_begin t)"

lemma same_chips_refl: "same_chips t t"
  by (simp add: same_chips_def)

lemma same_chips_trans: "same_chips t t1 \<Longrightarrow> same_chips t1 t2 \<Longrightarrow> same_chips t t2"
  by (simp add: same_chips_def)

lemma same_chips_fields:
  "players t' = players t \<Longrightarrow> pot t' = pot t \<Longrightarrow> same_chips t t'"
  by (simp add: same_chips_def total_chips_def stacks_def total_begin_def)

lemma same_chips_modify:
  "(\<And>q. chips (f q) = chips q) \<Longrightarrow> (\<And>q. beginChips (f q) = beginChips q) \<Longrightarrow>
   same_chips t (modify_player t seat f)"
  by (simp add: same_chips_def total_modify_player begin_modify_player)

lemma same_chips_map:
  "(\<And>s q. chips (f s q) = chips q) \<Longrightarrow> (\<And>s q. beginChips (f s q) = beginChips q) \<Longrightarrow>
   same_chips t (t\<lparr>players := map (\<lambda>(s, p). (s, f s p)) (players t)\<rparr>)"
  by (simp add: same_chips_def total_chips_def stacks_def total_begin_def sum_map_all
        del: map_map)

lemma same_chips_addToPot: "addToPot t seat c = Inr t' \<Longrightarrow> same_chips t t'"
  by (simp add: same_chips_def addToPot_total)

lemma same_chips_resetActed: "same_chips t (resetActed t)"
  unfolding resetActed_def by (rule same_chips_map) simp_all

lemma same_chips_resetCanRaise: "same_chips t (resetCanRaise t seat)"
  unfolding resetCanRaise_def by (rule same_chips_map) simp_all

lemma same_chips_resetRoundPot: "same_chips t (resetRoundPot t)"
  unfolding resetRoundPot_def by (rule same_chips_map) simp_all

lemma same_chips_showHoleCards: "same_chips t (showHoleCards t)"
proof (cases "int (length (filter (\<lambda>(s, p). \<not> out p) (players t))) > 1")
  case True
  have "same_chips t (t\<lparr>players :=
          map (\<lambda>(s, p). (s, if \<not> out p
                               then p\<lparr>holeCards := map (\<lambda>h. h\<lparr>Visibility := Exposed\<rparr>) (holeCards p)\<rparr>
                             else p))
              (players t)\<rparr>)"
    by (rule same_chips_map) simp_all
  then show ?thesis using True by (simp add: showHoleCards_def Let_def)
next
  case False
  then show ?thesis by (simp add: showHoleCards_def Let_def same_chips_refl)
qed

lemma same_chips_updatePots: "same_chips t (updatePots t)"
proof -
  have "updatePots t =
        t\<lparr>sidePots := fst (Pot_SidePots (pot t) (GetPlayerBeginChips t)),
          pot := filter (\<lambda>(s, c). c \<noteq> 0) (pot t)\<rparr>"
    by (simp add: updatePots_def Pot_SidePots_def Pot_sidePotAmounts_def Let_def split: prod.splits)
  then show ?thesis
    by (simp add: same_chips_def total_chips_def stacks_def total_begin_def Pot_Chips_filter_nonzero)
qed

lemma same_chips_commit_action:
  assumes "commit_action t seat p a c = Inr t'"
  shows "same_chips t t'"
proof -
  have add: "same_chips t t2"
    if "addToPot (modify_player t1 seat (\<lambda>q. PlayerState_addToPot q x 0 r)) seat y = Inr t2"
      and "same_chips t t1" for t1 t2 x y r
    using that same_chips_trans [OF that(2)]
      same_chips_trans [OF same_chips_modify same_chips_addToPot [OF that(1)]]
    by (simp add: chips_PlayerState_addToPot beginChips_PlayerState_addToPot)
  consider (fold) "a = Fold" | (call) "a \<noteq> Fold" "a = Call"
    | (bet) "a \<noteq> Fold" "a \<noteq> Call" "a = Bet"
    | (raise) "a \<noteq> Fold" "a \<noteq> Call" "a \<noteq> Bet" "a = Raise"
    | (other) "a \<noteq> Fold" "a \<noteq> Call" "a \<noteq> Bet" "a \<noteq> Raise"
    by blast
  then show ?thesis
  proof cases
    case fold
    then have "t' = modify_player t seat (\<lambda>q. q\<lparr>out := True\<rparr>)"
      using assms by (simp add: commit_action_def)
    then show ?thesis by (simp add: same_chips_modify)
  next
    case call
    let ?o = "Outstanding t"
    show ?thesis
    proof (cases "?o > chips p")
      case True
      then have "addToPot (modify_player t seat
              (\<lambda>q. PlayerState_addToPot q (chips p) 0 (roundNo t))) seat ?o = Inr t'"
        using assms call by (simp add: commit_action_def Let_def)
      then show ?thesis using add [OF _ same_chips_refl] by blast
    next
      case False
      then have "addToPot (modify_player t seat
              (\<lambda>q. PlayerState_addToPot q ?o 0 (roundNo t))) seat ?o = Inr t'"
        using assms call by (simp add: commit_action_def Let_def)
      then show ?thesis using add [OF _ same_chips_refl] by blast
    qed
  next
    case bet
    let ?b = "c - roundPot p"
    obtain t2 where t2: "addToPot (modify_player t seat
            (\<lambda>q. PlayerState_addToPot q ?b 0 (roundNo t))) seat ?b = Inr t2"
      and t': "t' = (if ?b \<ge> minRaise (resetActed t2)
                     then (resetCanRaise (resetActed t2) seat)\<lparr>minRaise := ?b\<rparr>
                     else resetActed t2)"
      using assms bet by (auto simp: commit_action_def Let_def split: sum.splits if_splits)
    have "same_chips t t2" using add [OF t2 same_chips_refl] .
    then have "same_chips t (resetActed t2)"
      using same_chips_resetActed same_chips_trans by blast
    moreover have "same_chips (resetActed t2) ((resetCanRaise (resetActed t2) seat)\<lparr>minRaise := ?b\<rparr>)"
      using same_chips_resetCanRaise [of "resetActed t2" seat]
      by (simp add: same_chips_def total_chips_def stacks_def total_begin_def)
    ultimately show ?thesis
      unfolding t' using same_chips_trans by (cases "?b \<ge> minRaise (resetActed t2)") auto
  next
    case raise
    let ?r = "c - roundPot p"
    define t1 where "t1 = (if ?r - Outstanding t \<ge> minRaise t
                     then (resetCanRaise t seat)
                            \<lparr>minRaise := ?r - Outstanding (resetCanRaise t seat)\<rparr>
                   else t)"
    obtain t3 where t3: "addToPot (modify_player t1 seat
            (\<lambda>q. PlayerState_addToPot q ?r 0 (roundNo t1))) seat ?r = Inr t3"
      and t': "t' = resetActed t3"
      using assms raise by (auto simp: commit_action_def Let_def t1_def split: sum.splits)
    have "same_chips t t1"
      using same_chips_resetCanRaise [of t seat]
      by (simp add: t1_def same_chips_def total_chips_def stacks_def total_begin_def)
    then have "same_chips t t3" using add [OF t3] by blast
    then show ?thesis
      unfolding t' using same_chips_resetActed same_chips_trans by blast
  next
    case other
    then have "t' = t" using assms by (simp add: commit_action_def)
    then show ?thesis by (simp add: same_chips_refl)
  qed
qed

lemma same_chips_handleAction:
  assumes "handleAction fl t seat a c = Inr t'"
  shows "same_chips t t'"
proof -
  obtain p t1 where c: "commit_action t seat p a c = Inr t1"
    and t': "t' = (let t2 = modify_player t1 seat (\<lambda>q. q\<lparr>canRaise := False, acted := True\<rparr>)
                   in if isNobodyCanPlay t2 \<and>
                         (fst (countState t2) > 1 \<or> (fst (countState t2) = 1 \<and> snd (countState t2) > 0))
                        then showHoleCards (updatePots (t2\<lparr>showdown := True\<rparr>))
                      else t2)"
    using assms
    by (auto simp: handleAction_def Let_def split: sum.splits option.splits if_splits)
  let ?t2 = "modify_player t1 seat (\<lambda>q. q\<lparr>canRaise := False, acted := True\<rparr>)"
  have 1: "same_chips t ?t2"
    using same_chips_trans [OF same_chips_commit_action [OF c] same_chips_modify] by simp
  have "same_chips ?t2 (?t2\<lparr>showdown := True\<rparr>)"
    by (rule same_chips_fields) simp_all
  then have "same_chips ?t2 (showHoleCards (updatePots (?t2\<lparr>showdown := True\<rparr>)))"
    using same_chips_updatePots same_chips_showHoleCards same_chips_trans by blast
  then have "same_chips t (showHoleCards (updatePots (?t2\<lparr>showdown := True\<rparr>)))"
    using 1 same_chips_trans by blast
  then show ?thesis
    unfolding t' Let_def using 1 by (simp only: split: if_splits) simp
qed

lemma same_chips_forcedBet:
  assumes "forcedBet t seat c = Inr t'"
  shows "same_chips t t'"
proof (cases "map_of (players t) seat")
  case None
  then show ?thesis using assms by (simp add: forcedBet_def same_chips_refl)
next
  case (Some p)
  let ?c1 = "if c > chips p then chips p else c"
  obtain t1 where t1: "addToPot t seat ?c1 = Inr t1"
    and t': "t' = modify_player t1 seat
                    (\<lambda>q. PlayerState_addToPot q ?c1 (Ante (Stakes (opts t))) (roundNo t))"
    using assms Some by (auto simp: forcedBet_def Let_def split: sum.splits)
  show ?thesis
    unfolding t'
    using same_chips_trans [OF same_chips_addToPot [OF t1] same_chips_modify]
    by (simp add: chips_PlayerState_addToPot beginChips_PlayerState_addToPot)
qed

lemma straddle_post:
  assumes "addToPot (t\<lparr>minRaise := m\<rparr>) seat b1 = Inr t2"
  shows "same_chips t
           (modify_player
              ((modify_player t2 seat (\<lambda>q. PlayerState_addToPot q b1 0 r))
                 \<lparr>action := s, straddleSeats := ss\<rparr>)
              seat (\<lambda>q. q\<lparr>straddle := False\<rparr>))"
proof -
  let ?t3 = "modify_player t2 seat (\<lambda>q. PlayerState_addToPot q b1 0 r)"
  have "same_chips t (t\<lparr>minRaise := m\<rparr>)"
    by (rule same_chips_fields) simp_all
  then have "same_chips t t2"
    using same_chips_addToPot [OF assms] same_chips_trans by blast
  moreover have "same_chips t2 ?t3"
    by (rule same_chips_modify)
       (simp_all add: chips_PlayerState_addToPot beginChips_PlayerState_addToPot)
  moreover have "same_chips ?t3 (?t3\<lparr>action := s, straddleSeats := ss\<rparr>)"
    by (rule same_chips_fields) simp_all
  moreover have "same_chips (?t3\<lparr>action := s, straddleSeats := ss\<rparr>)
                   (modify_player (?t3\<lparr>action := s, straddleSeats := ss\<rparr>) seat
                      (\<lambda>q. q\<lparr>straddle := False\<rparr>))"
    by (rule same_chips_modify) simp_all
  ultimately show ?thesis using same_chips_trans by blast
qed

lemma same_chips_doOneStraddleBet:
  assumes "doOneStraddleBet t seat category = Inr (t', posted)"
  shows "same_chips t t'"
  using assms unfolding doOneStraddleBet_def Let_def
  by (auto split: option.splits if_splits sum.splits
           simp: same_chips_refl elim!: straddle_post)

lemma same_chips_step:
  assumes "step fl t ev = Inr t'"
  shows "same_chips t t'"
proof (cases ev)
  case (EvForcedBet seat c)
  then show ?thesis using assms by (simp add: step_def same_chips_forcedBet)
next
  case (EvStraddle seat category)
  then obtain posted where "doOneStraddleBet t seat category = Inr (t', posted)"
    using assms by (auto simp: step_def split: sum.splits)
  then show ?thesis by (rule same_chips_doOneStraddleBet)
next
  case (EvAction a c)
  then show ?thesis using assms by (simp add: step_def same_chips_handleAction)
next
  case EvNextSeat
  then obtain s where "t' = t\<lparr>action := s\<rparr>"
    using assms by (auto simp: step_def split: sum.splits)
  then show ?thesis by (simp add: same_chips_fields)
next
  case (EvStartSeat seat)
  then obtain s where "t' = t\<lparr>action := s\<rparr>"
    using assms by (auto simp: step_def split: sum.splits)
  then show ?thesis by (simp add: same_chips_fields)
next
  case EvNextRound
  then have t': "t' = resetRoundPot (t\<lparr>roundNo := roundNo t + 1\<rparr>)"
    using assms by (simp add: step_def)
  have "same_chips t (t\<lparr>roundNo := roundNo t + 1\<rparr>)"
    by (rule same_chips_fields) simp_all
  then show ?thesis
    unfolding t' using same_chips_resetRoundPot same_chips_trans by blast
next
  case EvUpdatePots
  then show ?thesis using assms by (auto simp: step_def same_chips_updatePots)
next
  case EvResetActed
  then show ?thesis using assms by (auto simp: step_def same_chips_resetActed)
next
  case EvResetRaise
  then have t': "t' = resetCanRaise (t\<lparr>minRaise := 0\<rparr>) (- 1)"
    using assms by (simp add: step_def)
  have "same_chips t (t\<lparr>minRaise := 0\<rparr>)"
    by (rule same_chips_fields) simp_all
  then show ?thesis
    unfolding t' using same_chips_resetCanRaise same_chips_trans by blast
qed

lemma same_chips_run: "run fl t evs = Inr t' \<Longrightarrow> same_chips t t'"
proof (induction evs arbitrary: t)
  case Nil
  then show ?case by (simp add: same_chips_refl)
next
  case (Cons ev evs)
  then obtain t1 where "step fl t ev = Inr t1" and "run fl t1 evs = Inr t'"
    by (auto split: sum.splits)
  then show ?case
    using same_chips_step Cons.IH same_chips_trans by blast
qed

lemma Pot_Chips_newPot: "Pot_Chips (newPot n) = 0"
proof -
  have "sum_list (map snd (map (\<lambda>i. (int i, 0 :: int)) xs)) = 0" for xs :: "nat list"
    by (induction xs) auto
  then show ?thesis by (simp add: newPot_def Pot_Chips_sum)
qed

lemma setUpHand_total:
  assumes "setUpHand t d = Inr t1"
  shows "total_chips t1 = total_begin t1"
proof -
  obtain b where t1: "t1 = t\<lparr>deck := d, roundNo := 0, button := b, action := - 1,
                 pot := newPot (NumOfSeats (opts t)), straddleSeats := [], board := [],
                 players :=
                   map (\<lambda>(s, p). (s, p\<lparr>holeCards := [], out := False, allin := False,
                                         beginChips := chips p\<rparr>))
                       (players t)\<rparr>"
    using assms by (auto simp: setUpHand_def split: sum.splits)
  have "sum_list (map (\<lambda>(s, p). chips p) (map (\<lambda>(s, p). (s, p\<lparr>holeCards := [], out := False, allin := False,
                                         beginChips := chips p\<rparr>)) ps)) =
        sum_list (map (\<lambda>(s, p). beginChips p) (map (\<lambda>(s, p). (s, p\<lparr>holeCards := [], out := False, allin := False,
                                         beginChips := chips p\<rparr>)) ps))" for ps :: "(int \<times> PlayerState) list"
    by (induction ps) auto
  then show ?thesis
    unfolding t1 by (simp add: total_chips_def stacks_def total_begin_def Pot_Chips_newPot del: map_map)
qed

text \<open>
  C6. Every event of a hand that is applied without error leaves the players' stacks plus
  the pot's chips unchanged, and after any run of events from hand setup that sum equals
  the sum of the begin chips recorded at hand setup.
\<close>

theorem chip_conservation:
  "(\<forall>t ev t'. step fl t ev = Inr t' \<longrightarrow> total_chips t' = total_chips t) \<and>
   (\<forall>t0 d t1 evs t2.
      setUpHand t0 d = Inr t1 \<and> run fl t1 evs = Inr t2 \<longrightarrow>
        total_chips t2 = total_begin t1 \<and> total_begin t2 = total_begin t1)"
proof (intro conjI allI impI)
  fix t ev t'
  assume "step fl t ev = Inr t'"
  then show "total_chips t' = total_chips t"
    using same_chips_step by (simp add: same_chips_def)
next
  fix t0 d t1 evs t2
  assume a: "setUpHand t0 d = Inr t1 \<and> run fl t1 evs = Inr t2"
  then have "same_chips t1 t2" using same_chips_run by blast
  then show "total_chips t2 = total_begin t1" and "total_begin t2 = total_begin t1"
    using setUpHand_total [of t0 d t1] a by (simp_all add: same_chips_def)
qed

text \<open>
  Two players with 100 chips each before a hand, and a hand: the blinds 1 and 2, a raise
  to 6 and a call; on the flop a bet of 10 and an all-in raise to 94.
\<close>

definition ex_seated :: Table where
  "ex_seated =
     \<lparr>opts = ex_opts, deck = [], button = 5, smallBetSeat = 0, bigBetSeat = 0,
      utgSeat = 0, action = - 1, roundNo = 0, minRaise = 0, board = [],
      players = [(0, ex_state 1 100 0), (1, ex_state 2 100 0)],
      pot = newPot 6, sidePots = [],
      startedHand = False, showdown = False, straddleSeats = []\<rparr>"

definition ex_events :: "event list" where
  "ex_events =
     [EvUpdatePots, EvResetActed, EvForcedBet 0 1, EvForcedBet 1 2, EvStartSeat 0, EvResetRaise,
      EvAction Raise 6, EvNextSeat, EvAction Call 0, EvNextSeat,
      EvNextRound, EvUpdatePots, EvResetActed, EvStartSeat 1, EvResetRaise,
      EvAction Bet 10, EvNextSeat, EvAction Raise 94]"

theorem chip_conservation_witness:
  "\<exists>t1 t2. setUpHand ex_seated [] = Inr t1 \<and> run (\<lambda>os r. 2) t1 ex_events = Inr t2 \<and>
           total_begin t1 = 200 \<and> stacks t2 = 84 \<and> Pot_Chips (pot t2) = 116 \<and>
           total_chips t2 = 200"
proof -
  have "(case setUpHand ex_seated [] of Inl e \<Rightarrow> False
         | Inr t1 \<Rightarrow>
             (case run (\<lambda>os r. 2) t1 ex_events of Inl e \<Rightarrow> False
              | Inr t2 \<Rightarrow> total_begin t1 = 200 \<and> stacks t2 = 84 \<and> Pot_Chips (pot t2) = 116))"
    by code_simp
  then obtain t1 t2 where s: "setUpHand ex_seated [] = Inr t1"
    and r: "run (\<lambda>os r. 2) t1 ex_events = Inr t2"
    and v: "total_begin t1 = 200" "stacks t2 = 84" "Pot_Chips (pot t2) = 116"
    by (auto split: sum.splits)
  have "total_chips t2 = total_begin t1"
    using chip_conservation [of "\<lambda>os r. 2"] s r by blast
  then show ?thesis using s r v by auto
qed

section \<open>A short all-in raise does not reopen the betting\<close>

text \<open>canRaise and acted of the player on a seat, if there is one.\<close>

definition flags :: "Table \<Rightarrow> int \<Rightarrow> (bool \<times> bool) option" where
  "flags t s = map_option (\<lambda>q. (canRaise q, acted q)) (map_of (players t) s)"

lemma map_of_map_players:
  "map_of (map (\<lambda>(s, p). (s, f s p)) ps) k = map_option (f k) (map_of ps k)"
  by (induction ps) auto

lemma flags_modify_other: "s \<noteq> seat \<Longrightarrow> flags (modify_player t seat f) s = flags t s"
  by (simp add: flags_def modify_player_def map_of_map_entry)

lemma flags_addToPot_other:
  "addToPot t seat c = Inr t' \<Longrightarrow> s \<noteq> seat \<Longrightarrow> flags t' s = flags t s"
  by (auto simp: addToPot_def flags_def Let_def update_conv' split: option.splits sum.splits)

lemma minRaise_addToPot: "addToPot t seat c = Inr t' \<Longrightarrow> minRaise t' = minRaise t"
  by (auto simp: addToPot_def Let_def split: option.splits sum.splits)

lemma flags_resetActed:
  "flags (resetActed t) s = map_option (\<lambda>(cr, ac). (cr, False)) (flags t s)"
  by (simp add: flags_def resetActed_def map_of_map_players option.map_comp comp_def)

lemma flags_resetCanRaise:
  "flags (resetCanRaise t seat) s = map_option (\<lambda>(cr, ac). (s \<noteq> seat, ac)) (flags t s)"
  by (simp add: flags_def resetCanRaise_def map_of_map_players option.map_comp comp_def)

lemma flags_updatePots: "flags (updatePots t) s = flags t s"
  by (simp add: flags_def updatePots_def split: prod.splits)

lemma flags_showHoleCards: "flags (showHoleCards t) s = flags t s"
  by (cases "map_of (players t) s")
     (simp_all add: flags_def showHoleCards_def Let_def map_of_map_players)

lemma minRaise_showdown: "minRaise (showHoleCards (updatePots (t\<lparr>showdown := True\<rparr>))) = minRaise t"
  by (simp add: showHoleCards_def updatePots_def Let_def split: prod.splits)

lemma handleAction_tail:
  assumes "handleAction fl t seat a c = Inr t'"
  obtains p t1 where "map_of (players t) seat = Some p"
    and "commit_action t seat p a c = Inr t1"
    and "minRaise t' = minRaise t1"
    and "\<And>s. s \<noteq> seat \<Longrightarrow> flags t' s = flags t1 s"
proof -
  obtain p t1 where p: "map_of (players t) seat = Some p"
    and c: "commit_action t seat p a c = Inr t1"
    and t': "t' = (let t2 = modify_player t1 seat (\<lambda>q. q\<lparr>canRaise := False, acted := True\<rparr>)
                   in if isNobodyCanPlay t2 \<and>
                         (fst (countState t2) > 1 \<or> (fst (countState t2) = 1 \<and> snd (countState t2) > 0))
                        then showHoleCards (updatePots (t2\<lparr>showdown := True\<rparr>))
                      else t2)"
    using assms
    by (auto simp: handleAction_def Let_def split: sum.splits option.splits if_splits)
  let ?t2 = "modify_player t1 seat (\<lambda>q. q\<lparr>canRaise := False, acted := True\<rparr>)"
  have m: "minRaise t' = minRaise t1"
    unfolding t' Let_def by (simp add: minRaise_showdown) (simp add: modify_player_def)
  have f: "flags t' s = flags t1 s" if "s \<noteq> seat" for s
  proof -
    have "flags (showHoleCards (updatePots (?t2\<lparr>showdown := True\<rparr>))) s = flags ?t2 s"
      by (simp add: flags_showHoleCards flags_updatePots) (simp add: flags_def)
    then show ?thesis
      unfolding t' Let_def using that by (simp add: flags_modify_other)
  qed
  show ?thesis using that p c m f by blast
qed

lemma commit_Raise:
  assumes "commit_action t seat p Raise c = Inr t1"
  shows "(c - roundPot p - Outstanding t < minRaise t \<longrightarrow>
            minRaise t1 = minRaise t \<and>
            (\<forall>s. s \<noteq> seat \<longrightarrow> flags t1 s = map_option (\<lambda>(cr, ac). (cr, False)) (flags t s))) \<and>
         (c - roundPot p - Outstanding t \<ge> minRaise t \<longrightarrow>
            minRaise t1 = c - roundPot p - Outstanding t \<and>
            (\<forall>s. s \<noteq> seat \<longrightarrow> flags t1 s = map_option (\<lambda>(cr, ac). (True, False)) (flags t s)))"
proof -
  let ?r = "c - roundPot p"
  have ne: "Raise \<noteq> Fold" "Raise \<noteq> Call" "Raise \<noteq> Bet"
    by (simp_all add: Raise_def Fold_def Call_def Bet_def)
  define t0 where "t0 = (if ?r - Outstanding t \<ge> minRaise t
                     then (resetCanRaise t seat)
                            \<lparr>minRaise := ?r - Outstanding (resetCanRaise t seat)\<rparr>
                   else t)"
  obtain t3 where t3: "addToPot (modify_player t0 seat
            (\<lambda>q. PlayerState_addToPot q ?r 0 (roundNo t0))) seat ?r = Inr t3"
    and t1: "t1 = resetActed t3"
    using assms ne by (auto simp: commit_action_def Let_def t0_def split: sum.splits)
  have out: "Outstanding (resetCanRaise t seat) = Outstanding t"
    by (simp add: Outstanding_def CurrentPlayer_def resetCanRaise_def map_of_map_players
             split: option.splits)
  have m: "minRaise t1 = minRaise t0"
    using minRaise_addToPot [OF t3] by (simp add: t1 resetActed_def modify_player_def)
  have f: "flags t1 s = map_option (\<lambda>(cr, ac). (cr, False)) (flags t0 s)" if "s \<noteq> seat" for s
    using flags_addToPot_other [OF t3 that] that
    by (simp add: t1 flags_resetActed flags_modify_other)
  have f0: "flags ((resetCanRaise t seat)\<lparr>minRaise := x\<rparr>) s = flags (resetCanRaise t seat) s" for x s
    by (simp add: flags_def)
  show ?thesis
  proof (cases "?r - Outstanding t \<ge> minRaise t")
    case True
    then have "t0 = (resetCanRaise t seat)\<lparr>minRaise := ?r - Outstanding t\<rparr>"
      by (simp add: t0_def out)
    moreover have "map_option (\<lambda>(cr, ac). (cr, False)) (flags (resetCanRaise t seat) s) =
                   map_option (\<lambda>(cr, ac). (True, False)) (flags t s)" if "s \<noteq> seat" for s
      using that by (cases "flags t s") (auto simp: flags_resetCanRaise)
    ultimately show ?thesis
      using True m f by (simp add: f0)
  next
    case False
    then have "t0 = t" by (simp add: t0_def)
    then show ?thesis using False m f by auto
  qed
qed

text \<open>
  The flop of a three-handed No-Limit hand with blinds 1/2: everybody put in 2 before the
  flop; on the flop seat 0 checked, seat 1 bet 10 and seat 2 called. The action is back on
  seat 0, who has 15 chips left: raising to 15 is an all-in that is 5 over the call, below
  the minimum raise of 10.
\<close>

definition ex_flop :: Table where
  "ex_flop =
     \<lparr>opts = ex_opts, deck = [], button = 2, smallBetSeat = 0, bigBetSeat = 1,
      utgSeat = 2, action = 0, roundNo = 1, minRaise = 10, board = [],
      players =
        [(0, (ex_state 1 15 2)\<lparr>roundPot := 0\<rparr>),
         (1, (ex_state 2 88 12)\<lparr>roundPot := 10, acted := True, canRaise := False\<rparr>),
         (2, (ex_state 3 88 12)\<lparr>roundPot := 10, acted := True, canRaise := False\<rparr>)],
      pot = [(0, 2), (1, 12), (2, 12)], sidePots = [[(0, 2), (1, 2), (2, 2)]],
      startedHand = True, showdown = False, straddleSeats = []\<rparr>"

text \<open>
  C3 (amended). When a Raise is accepted whose increment over the call amount is below the
  current minimum raise (a short all-in), the minimum raise stays and every other player
  keeps the \<open>canRaise\<close> flag as it was; only a raise that meets the minimum raise sets
  \<open>canRaise\<close> on the other players (and becomes the new minimum raise). Every accepted
  Raise clears \<open>acted\<close> on all other players.
\<close>

theorem short_raise_keeps_canRaise:
  assumes "handleAction fl t (action t) Raise c = Inr t'" and "CurrentPlayer t = Some p"
  shows "(c - roundPot p - Outstanding t < minRaise t \<longrightarrow>
            minRaise t' = minRaise t \<and>
            (\<forall>s. s \<noteq> action t \<longrightarrow>
                 flags t' s = map_option (\<lambda>(cr, ac). (cr, False)) (flags t s))) \<and>
         (c - roundPot p - Outstanding t \<ge> minRaise t \<longrightarrow>
            minRaise t' = c - roundPot p - Outstanding t \<and>
            (\<forall>s. s \<noteq> action t \<longrightarrow>
                 flags t' s = map_option (\<lambda>(cr, ac). (True, False)) (flags t s)))"
proof -
  obtain q t1 where q: "map_of (players t) (action t) = Some q"
    and c: "commit_action t (action t) q Raise c = Inr t1"
    and m: "minRaise t' = minRaise t1"
    and f: "\<And>s. s \<noteq> action t \<Longrightarrow> flags t' s = flags t1 s"
    using handleAction_tail [OF assms(1)] by blast
  have "q = p" using q assms(2) by (simp add: CurrentPlayer_def)
  then show ?thesis
    using commit_Raise [OF c] m f by simp
qed

theorem short_raise_keeps_canRaise_witness:
  "CurrentPlayer ex_flop = Some ((ex_state 1 15 2)\<lparr>roundPot := 0\<rparr>) \<and>
   15 - roundPot ((ex_state 1 15 2)\<lparr>roundPot := 0\<rparr>) - Outstanding ex_flop = 5 \<and>
   minRaise ex_flop = 10 \<and>
   flags ex_flop 1 = Some (False, True) \<and>
   (\<exists>t'. handleAction (\<lambda>os r. 2) ex_flop (action ex_flop) Raise 15 = Inr t' \<and>
         minRaise t' = 10 \<and> flags t' 1 = Some (False, False))"
proof -
  have cur: "CurrentPlayer ex_flop = Some ((ex_state 1 15 2)\<lparr>roundPot := 0\<rparr>)"
    by (simp add: CurrentPlayer_def ex_flop_def)
  have inc: "15 - roundPot ((ex_state 1 15 2)\<lparr>roundPot := 0\<rparr>) - Outstanding ex_flop = 5"
    by code_simp
  have mr: "minRaise ex_flop = 10"
    by (simp add: ex_flop_def)
  have fl1: "flags ex_flop 1 = Some (False, True)"
    by code_simp
  have act: "(1::int) \<noteq> action ex_flop"
    by (simp add: ex_flop_def)
  have "\<not> isl (handleAction (\<lambda>os r. 2) ex_flop (action ex_flop) Raise 15)"
    by code_simp
  then obtain t' where h: "handleAction (\<lambda>os r. 2) ex_flop (action ex_flop) Raise 15 = Inr t'"
    by (cases "handleAction (\<lambda>os r. 2) ex_flop (action ex_flop) Raise 15") auto
  have "minRaise t' = 10 \<and> flags t' 1 = Some (False, False)"
    using short_raise_keeps_canRaise [OF h cur] inc mr fl1 act by simp
  then show ?thesis using cur inc mr fl1 h by blast
qed

text \<open>
  As stated, with \<open>acted\<close> left true on the players who had acted, the claim fails: the
  short all-in of seat 0 clears \<open>acted\<close> on seats 1 and 2, who both had acted. They
  have to answer the raise, and it is their \<open>canRaise\<close> flag that keeps them from
  raising again.
\<close>

theorem short_raise_clears_acted_counterexample:
  "15 - roundPot ((ex_state 1 15 2)\<lparr>roundPot := 0\<rparr>) - Outstanding ex_flop < minRaise ex_flop \<and>
   map_option acted (map_of (players ex_flop) 1) = Some True \<and>
   map_option acted (map_of (players ex_flop) 2) = Some True \<and>
   map_sum id (\<lambda>t'. (map_option acted (map_of (players t') 1),
                     map_option acted (map_of (players t') 2)))
     (handleAction (\<lambda>os r. 2) ex_flop (action ex_flop) Raise 15) =
   Inr (Some False, Some False)"
  by code_simp

section \<open>The high/low split of a pot\<close>

text \<open>
  Hands as numbers for the examples: the greater number is the better high hand and the
  smaller number the better low hand; a seat without a qualifying low hand has none.
\<close>

definition ex_best :: "Sorting \<Rightarrow> nat list \<Rightarrow> nat" where
  "ex_best sorting hs =
     (if sorting = SortingLow then fold min hs (hd hs) else fold max hs (hd hs))"

definition ex_compareTo :: "nat \<Rightarrow> nat \<Rightarrow> int" where
  "ex_compareTo a b = (if a < b then - 1 else if a = b then 0 else 1)"

text \<open>
  The showdown of a hand in which seats 0 and 1 have put in 7 chips each. Seat 0 holds the
  best high hand and no low hand, seat 1 the only low hand.
\<close>

definition ex_showdown :: Table where
  "ex_showdown =
     ex_blinds\<lparr>players := [(0, ex_state 1 93 7), (1, ex_state 2 93 7)],
               pot := [(0, 7), (1, 7), (2, 0), (3, 0), (4, 0), (5, 0)],
               action := - 1, roundNo := 4\<rparr>"

definition ex_highHands :: "nat Hands" where
  "ex_highHands = [(0, Some 9), (1, Some 5)]"

definition ex_lowHands :: "nat Hands" where
  "ex_lowHands = [(0, None), (1, Some 3)]"

text \<open>
  The high half and the low half of a split pot add up to the pot exactly when its chips
  are 0 or 3 modulo 4: the code adds the extra chip when the half, not the pot, is odd.
\<close>

lemma highAmount_sums_iff:
  assumes "0 \<le> c"
  shows "(highAmount c + go_div c 2 = c) = (c mod 4 = 0 \<or> c mod 4 = 3)"
proof -
  have d: "go_div c 2 = c div 2"
    using assms by (cases "c = 0") (simp_all add: go_div_def)
  have "0 \<le> c div 2" using assms by simp
  then have m: "go_mod (c div 2) 2 = (c div 2) mod 2"
    by (simp add: go_mod_nonneg)
  show ?thesis
    unfolding highAmount_def Let_def d m by presburger
qed

text \<open>
  C1. The payout of a pot split between a high and a low winner should award halves that
  add up to the pot, the high half one chip more when the pot is odd. A pot of 15 chips is
  paid 8 and 7 (lemma \<open>payout_split_of_15\<close>), but a pot of 14 chips is paid 8 and 7
  as well, one chip more than it holds, and a pot of 13 chips is paid 6 and 6.
\<close>

theorem payout_split_of_14_pays_15:
  "Pot_Chips (pot ex_showdown) = 14 \<and>
   Pot_payout 1 ex_best ex_compareTo (pot ex_showdown) 0 ex_showdown
     ex_highHands ex_lowHands SortingHigh 0 =
   Some (Inr [(0, [\<lparr>PotNo = 0, Hand = Some 9, Chips = 8, Share = WonHigh\<rparr>]),
              (1, [\<lparr>PotNo = 0, Hand = Some 3, Chips = 7, Share = WonLow\<rparr>])])"
  by code_simp

lemma payout_split_of_15:
  "Pot_payout 1 ex_best ex_compareTo [(0, 8), (1, 7)] 0 ex_showdown
     ex_highHands ex_lowHands SortingHigh 0 =
   Some (Inr [(0, [\<lparr>PotNo = 0, Hand = Some 9, Chips = 8, Share = WonHigh\<rparr>]),
              (1, [\<lparr>PotNo = 0, Hand = Some 3, Chips = 7, Share = WonLow\<rparr>])])"
  by code_simp

lemma payout_split_of_13_pays_12:
  "Pot_payout 1 ex_best ex_compareTo [(0, 7), (1, 6)] 0 ex_showdown
     ex_highHands ex_lowHands SortingHigh 0 =
   Some (Inr [(0, [\<lparr>PotNo = 0, Hand = Some 9, Chips = 6, Share = WonHigh\<rparr>]),
              (1, [\<lparr>PotNo = 0, Hand = Some 3, Chips = 6, Share = WonLow\<rparr>])])"
  by code_simp

section \<open>The card wire format\<close>

lemma indexOf_loop_miss: "0 \<le> i \<Longrightarrow> (indexOf_loop ranks i r = - 1) = (r \<notin> set ranks)"
  by (induction ranks arbitrary: i) auto

lemma Rank_valid_iff: "Rank_valid r = (r \<in> set allRanks)"
  by (simp add: Rank_valid_def indexOf_def indexOf_loop_miss)

text \<open>The decoding step, one lead-byte class at a time.\<close>

lemma mod_offset:
  fixes b :: nat
  assumes "k * m \<le> b" and "b < k * m + m"
  shows "b mod m = b - k * m"
proof -
  have "b = (b - k * m) + k * m" using assms(1) by simp
  then have "b mod m = ((b - k * m) + k * m) mod m" by simp
  also have "\<dots> = (b - k * m) mod m" by simp
  also have "\<dots> = b - k * m"
  proof (rule mod_less)
    show "b - k * m < m" using assms by arith
  qed
  finally show ?thesis .
qed

lemma mod_32: "192 \<le> b \<Longrightarrow> b < 224 \<Longrightarrow> b mod 32 = b - (192 :: nat)"
  using mod_offset [of 6 32 b] by simp

lemma mod_16: "224 \<le> b \<Longrightarrow> b < 240 \<Longrightarrow> b mod 16 = b - (224 :: nat)"
  using mod_offset [of 14 16 b] by simp

lemma mod_8: "240 \<le> b \<Longrightarrow> b < 248 \<Longrightarrow> b mod 8 = b - (240 :: nat)"
  using mod_offset [of 30 8 b] by simp

lemma mod_64: "128 \<le> b \<Longrightarrow> b < 192 \<Longrightarrow> b mod 64 = b - (128 :: nat)"
  using mod_offset [of 2 64 b] by simp

lemma decodeRune_2: 
  assumes "0xC2 \<le> b" and "b < 0xE0"
  shows "decodeRune (b # bs) =
           (if bs = [] \<or> hd bs < 0x80 \<or> 0xBF < hd bs then (RuneError, 1)
            else ((b - 192) * 0x40 + (hd bs - 128), 2))"
  using assms
  by (cases bs) (simp_all add: Let_def accept_range_def mod_32 mod_64)

lemma decodeRune_3:
  assumes "0xE0 \<le> b" and "b < 0xF0"
  shows "decodeRune (b # bs) =
           (if length bs < 2 \<or> bs ! 0 < fst (accept_range b) \<or> snd (accept_range b) < bs ! 0
                \<or> bs ! 1 < 0x80 \<or> 0xBF < bs ! 1
              then (RuneError, 1)
            else ((b - 224) * 0x1000 + (bs ! 0 - 128) * 0x40 + (bs ! 1 - 128), 3))"
proof -
  have r: "0x80 \<le> fst (accept_range b)" "snd (accept_range b) \<le> 0xBF"
    by (simp_all add: accept_range_def)
  have "bs ! 0 mod 64 = bs ! 0 - 128"
    if "\<not> bs ! 0 < fst (accept_range b)" "\<not> snd (accept_range b) < bs ! 0"
    using that r by (intro mod_64) linarith+
  then show ?thesis
    using assms by (simp add: Let_def mod_16 mod_64 less_Suc_eq_le)
qed

lemma decodeRune_4:
  assumes "0xF0 \<le> b" and "b \<le> 0xF4"
  shows "decodeRune (b # bs) =
           (if length bs < 3 \<or> bs ! 0 < fst (accept_range b) \<or> snd (accept_range b) < bs ! 0
                \<or> bs ! 1 < 0x80 \<or> 0xBF < bs ! 1 \<or> bs ! 2 < 0x80 \<or> 0xBF < bs ! 2
              then (RuneError, 1)
            else ((b - 240) * 0x40000 + (bs ! 0 - 128) * 0x1000 + (bs ! 1 - 128) * 0x40
                    + (bs ! 2 - 128), 4))"
proof -
  have r: "0x80 \<le> fst (accept_range b)" "snd (accept_range b) \<le> 0xBF"
    by (simp_all add: accept_range_def)
  have "bs ! 0 mod 64 = bs ! 0 - 128"
    if "\<not> bs ! 0 < fst (accept_range b)" "\<not> snd (accept_range b) < bs ! 0"
    using that r by (intro mod_64) linarith+
  then show ?thesis
    using assms by (simp add: Let_def mod_8 mod_64 less_Suc_eq_le)
qed

text \<open>Encoding the code point that a well-formed sequence decodes to gives the sequence
  back.\<close>

lemma digits_64:
  fixes q z :: nat
  assumes "z < 64"
  shows "(q * 64 + z) div 64 = q" and "(q * 64 + z) mod 64 = z"
  using assms by simp_all

lemma encodeRune_2:
  assumes "2 \<le> x" and "x < 32" and "y < 64"
  shows "encodeRune (x * 64 + y) = [192 + x, 128 + y]"
proof -
  have "128 \<le> x * 64 + y" "x * 64 + y < 2048" using assms by linarith+
  then show ?thesis
    using digits_64 [OF assms(3), of x] by (simp add: encodeRune_def)
qed

lemma encodeRune_3:
  assumes "x < 16" and "y < 64" and "z < 64"
    and "x = 0 \<longrightarrow> 32 \<le> y" and "x = 13 \<longrightarrow> y < 32"
  shows "encodeRune ((x * 64 + y) * 64 + z) = [224 + x, 128 + y, 128 + z]"
proof -
  let ?c = "(x * 64 + y) * 64 + z"
  have lo: "2048 \<le> ?c" using assms(4) by (cases "x = 0") simp_all
  have "x * 64 + y \<le> 1023" using assms(1,2) by linarith
  then have "(x * 64 + y) * 64 \<le> 1023 * 64" by (rule mult_le_mono1)
  then have hi: "?c < 65536" using assms(3) by linarith
  have sur: "\<not> (55296 \<le> ?c \<and> ?c \<le> 57343)"
  proof (cases "x = 13")
    case True
    then have "?c < 55296" using assms(3,5) by simp
    then show ?thesis by simp
  next
    case False
    then have "x \<le> 12 \<or> 14 \<le> x" by linarith
    then show ?thesis using assms(2,3) by auto
  qed
  have d: "?c div 64 = x * 64 + y" "?c mod 64 = z"
    using digits_64 [OF assms(3), of "x * 64 + y"] by simp_all
  have d2: "(x * 64 + y) div 64 = x" "(x * 64 + y) mod 64 = y"
    using digits_64 [OF assms(2), of x] by simp_all
  have "?c div 4096 = (?c div 64) div 64"
    by (simp add: div_mult2_eq)
  then have d3: "?c div 4096 = x" by (simp only: d d2)
  show ?thesis
    unfolding encodeRune_def using lo hi sur by (simp only: d d2 d3) simp
qed

lemma encodeRune_4:
  assumes "x \<le> 4" and "y < 64" and "z < 64" and "u < 64"
    and "x = 0 \<longrightarrow> 16 \<le> y" and "x = 4 \<longrightarrow> y < 16"
  shows "encodeRune (((x * 64 + y) * 64 + z) * 64 + u) = [240 + x, 128 + y, 128 + z, 128 + u]"
proof -
  let ?b = "x * 64 + y"
  let ?a = "?b * 64 + z"
  let ?c = "?a * 64 + u"
  have blo: "16 \<le> ?b" using assms(5) by (cases "x = 0") simp_all
  have bhi: "?b \<le> 271"
  proof (cases "x = 4")
    case True
    then show ?thesis using assms(6) by simp
  next
    case False
    then have "x \<le> 3" using assms(1) by simp
    then show ?thesis using assms(2) by linarith
  qed
  have "16 * 64 \<le> ?b * 64" using blo by (rule mult_le_mono1)
  then have alo: "1024 \<le> ?a" by linarith
  have "?b * 64 \<le> 271 * 64" using bhi by (rule mult_le_mono1)
  then have ahi: "?a \<le> 17407" using assms(3) by linarith
  have "1024 * 64 \<le> ?a * 64" using alo by (rule mult_le_mono1)
  then have lo: "65536 \<le> ?c" by linarith
  have "?a * 64 \<le> 17407 * 64" using ahi by (rule mult_le_mono1)
  then have hi: "?c \<le> 1114111" using assms(4) by linarith
  have d: "?c div 64 = ?a" "?c mod 64 = u"
    using digits_64 [OF assms(4), of ?a] by simp_all
  have d2: "?a div 64 = ?b" "?a mod 64 = z"
    using digits_64 [OF assms(3), of ?b] by simp_all
  have d3: "?b div 64 = x" "?b mod 64 = y"
    using digits_64 [OF assms(2), of x] by simp_all
  have "?c div 4096 = (?c div 64) div 64"
    by (simp add: div_mult2_eq)
  then have d4: "?c div 4096 = ?b" by (simp only: d d2)
  have "?c div 262144 = (?c div 4096) div 64"
    by (simp add: div_mult2_eq)
  then have d5: "?c div 262144 = x" by (simp only: d4 d3)
  show ?thesis
    unfolding encodeRune_def using lo hi by (simp only: d d2 d3 d4 d5) simp
qed

lemma decodeRune_cases:
  "decodeRune (b # bs) = (RuneError, 1)
   \<or> (\<exists>c rest. decodeRune (b # bs) = (c, length (encodeRune c))
                 \<and> b # bs = encodeRune c @ rest)"
proof -
  consider "b < 0x80" | "0x80 \<le> b \<and> (b < 0xC2 \<or> 0xF4 < b)" | "0xC2 \<le> b \<and> b < 0xE0"
    | "0xE0 \<le> b \<and> b < 0xF0" | "0xF0 \<le> b \<and> b \<le> 0xF4"
    by linarith
  then show ?thesis
  proof cases
    case 1
    then have "decodeRune (b # bs) = (b, length (encodeRune b))" "b # bs = encodeRune b @ bs"
      by (simp_all add: encodeRune_def)
    then show ?thesis by blast
  next
    case 2
    then show ?thesis by auto
  next
    case 3
    show ?thesis
    proof (cases "bs = [] \<or> hd bs < 0x80 \<or> 0xBF < hd bs")
      case True
      then show ?thesis using 3 by (simp add: decodeRune_2 del: decodeRune.simps)
    next
      case False
      then obtain b1 rest where bs: "bs = b1 # rest" and b1: "128 \<le> b1" "b1 \<le> 191"
        by (cases bs) auto
      define x where "x = b - 192"
      define y where "y = b1 - 128"
      have xy: "2 \<le> x" "x < 32" "y < 64" "192 + x = b" "128 + y = b1"
        using 3 b1 by (auto simp: x_def y_def)
      have dec: "decodeRune (b # bs) = (x * 64 + y, 2)"
        using 3 False bs by (simp add: decodeRune_2 x_def y_def del: decodeRune.simps)
      have enc: "encodeRune (x * 64 + y) = [b, b1]"
        using encodeRune_2 [OF xy(1-3)] xy(4,5) by simp
      have "decodeRune (b # bs) = (x * 64 + y, length (encodeRune (x * 64 + y)))"
        "b # bs = encodeRune (x * 64 + y) @ rest"
        using dec enc bs by simp_all
      then show ?thesis by blast
    qed
  next
    case 4
    let ?bad = "length bs < 2 \<or> bs ! 0 < fst (accept_range b) \<or> snd (accept_range b) < bs ! 0
                \<or> bs ! 1 < 0x80 \<or> 0xBF < bs ! 1"
    show ?thesis
    proof (cases ?bad)
      case True
      then show ?thesis using 4 by (simp add: decodeRune_3 del: decodeRune.simps)
    next
      case False
      then obtain b1 b2 rest where bs: "bs = b1 # b2 # rest"
        by (cases bs; cases "tl bs") auto
      have r: "0x80 \<le> fst (accept_range b)" "snd (accept_range b) \<le> 0xBF"
        by (simp_all add: accept_range_def)
      have b1: "fst (accept_range b) \<le> b1" "b1 \<le> snd (accept_range b)"
        and b2: "128 \<le> b2" "b2 \<le> 191"
        using False bs by simp_all
      define x where "x = b - 224"
      define y where "y = b1 - 128"
      define z where "z = b2 - 128"
      have xyz: "x < 16" "y < 64" "z < 64" "224 + x = b" "128 + y = b1" "128 + z = b2"
        using 4 b1 b2 r by (auto simp: x_def y_def z_def)
      have x0: "x = 0 \<longrightarrow> 32 \<le> y"
      proof
        assume "x = 0"
        then have "b = 224" using xyz(4) by simp
        then have "160 \<le> b1" using b1(1) by (simp add: accept_range_def)
        then show "32 \<le> y" by (simp add: y_def)
      qed
      have x13: "x = 13 \<longrightarrow> y < 32"
      proof
        assume "x = 13"
        then have "b = 237" using xyz(4) by simp
        then have "b1 \<le> 159" using b1(2) by (simp add: accept_range_def)
        then show "y < 32" using xyz(5) by linarith
      qed
      have "decodeRune (b # bs) = (x * 4096 + y * 64 + z, 3)"
        using 4 False bs unfolding x_def y_def z_def
        by (simp add: decodeRune_3 del: decodeRune.simps)
      then have dec: "decodeRune (b # bs) = ((x * 64 + y) * 64 + z, 3)"
        by (simp add: algebra_simps)
      have enc: "encodeRune ((x * 64 + y) * 64 + z) = [b, b1, b2]"
        using encodeRune_3 [OF xyz(1-3) x0 x13] xyz(4-6) by simp
      have "decodeRune (b # bs)
              = ((x * 64 + y) * 64 + z, length (encodeRune ((x * 64 + y) * 64 + z)))"
        "b # bs = encodeRune ((x * 64 + y) * 64 + z) @ rest"
        using dec enc bs by simp_all
      then show ?thesis by blast
    qed
  next
    case 5
    let ?bad = "length bs < 3 \<or> bs ! 0 < fst (accept_range b) \<or> snd (accept_range b) < bs ! 0
                \<or> bs ! 1 < 0x80 \<or> 0xBF < bs ! 1 \<or> bs ! 2 < 0x80 \<or> 0xBF < bs ! 2"
    show ?thesis
    proof (cases ?bad)
      case True
      then show ?thesis using 5 by (simp add: decodeRune_4 del: decodeRune.simps)
    next
      case False
      then obtain b1 b2 b3 rest where bs: "bs = b1 # b2 # b3 # rest"
        by (cases bs; cases "tl bs"; cases "tl (tl bs)") auto
      have r: "0x80 \<le> fst (accept_range b)" "snd (accept_range b) \<le> 0xBF"
        by (simp_all add: accept_range_def)
      have b1: "fst (accept_range b) \<le> b1" "b1 \<le> snd (accept_range b)"
        and b2: "128 \<le> b2" "b2 \<le> 191" and b3: "128 \<le> b3" "b3 \<le> 191"
        using False bs by simp_all
      define x where "x = b - 240"
      define y where "y = b1 - 128"
      define z where "z = b2 - 128"
      define u where "u = b3 - 128"
      have xyz: "x \<le> 4" "y < 64" "z < 64" "u < 64"
        "240 + x = b" "128 + y = b1" "128 + z = b2" "128 + u = b3"
        using 5 b1 b2 b3 r by (auto simp: x_def y_def z_def u_def)
      have x0: "x = 0 \<longrightarrow> 16 \<le> y"
      proof
        assume "x = 0"
        then have "b = 240" using xyz(5) by simp
        then have "144 \<le> b1" using b1(1) by (simp add: accept_range_def)
        then show "16 \<le> y" by (simp add: y_def)
      qed
      have x4: "x = 4 \<longrightarrow> y < 16"
      proof
        assume "x = 4"
        then have "b = 244" using xyz(5) by simp
        then have "b1 \<le> 143" using b1(2) by (simp add: accept_range_def)
        then show "y < 16" using xyz(6) by linarith
      qed
      have "decodeRune (b # bs) = (x * 262144 + y * 4096 + z * 64 + u, 4)"
        using 5 False bs unfolding x_def y_def z_def u_def
        by (simp add: decodeRune_4 del: decodeRune.simps)
      then have dec: "decodeRune (b # bs) = (((x * 64 + y) * 64 + z) * 64 + u, 4)"
        by (simp add: algebra_simps)
      have enc: "encodeRune (((x * 64 + y) * 64 + z) * 64 + u) = [b, b1, b2, b3]"
        using encodeRune_4 [OF xyz(1-4) x0 x4] xyz(5-8) by simp
      have "decodeRune (b # bs)
              = (((x * 64 + y) * 64 + z) * 64 + u,
                 length (encodeRune (((x * 64 + y) * 64 + z) * 64 + u)))"
        "b # bs = encodeRune (((x * 64 + y) * 64 + z) * 64 + u) @ rest"
        using dec enc bs by simp_all
      then show ?thesis by blast
    qed
  qed
qed

text \<open>A code point whose encoding occurs in the four suit characters is one of them.\<close>

lemma encodeRune_shape:
  "(\<exists>x. encodeRune c = [x] \<and> x < 128)
   \<or> (\<exists>x y. encodeRune c = [x, y] \<and> 194 \<le> x \<and> x < 224)
   \<or> (\<exists>x y z. encodeRune c = [x, y, z] \<and> 224 \<le> x \<and> x < 240)
   \<or> (\<exists>x y z u. encodeRune c = [x, y, z, u] \<and> 240 \<le> x)"
proof -
  have "c div 64 < 32" if "c < 2048" using that by (simp add: less_mult_imp_div_less)
  moreover have "2 \<le> c div 64" if "128 \<le> c" using that div_le_mono [of 128 c 64] by simp
  moreover have "c div 4096 < 16" if "c < 65536" using that by (simp add: less_mult_imp_div_less)
  ultimately show ?thesis
    unfolding encodeRune_def by (simp add: not_less)
qed

lemma Contains_suits:
  "Contains [0xE2, 0x99, 0xA0, 0xE2, 0x99, 0xA5, 0xE2, 0x99, 0xA6, 0xE2, 0x99, 0xA3] [x, y, z]
   \<Longrightarrow> x = 0xE2 \<Longrightarrow> [x, y, z] \<in> set allSuits"
  by (simp add: Contains_def allSuits_def Spades_def Hearts_def Diamonds_def Clubs_def)

lemma Suit_valid_encodeRune:
  assumes "Suit_valid (encodeRune c)"
  shows "encodeRune c \<in> set allSuits"
proof -
  let ?s = "[0xE2, 0x99, 0xA0, 0xE2, 0x99, 0xA5, 0xE2, 0x99, 0xA6, 0xE2, 0x99, 0xA3] :: byte list"
  have v: "Contains ?s (encodeRune c)"
    using assms by (simp add: Suit_valid_def Spades_def Hearts_def Diamonds_def Clubs_def)
  consider x where "encodeRune c = [x]" "x < 128"
    | x y where "encodeRune c = [x, y]" "194 \<le> x" "x < 224"
    | x y z where "encodeRune c = [x, y, z]" "224 \<le> x" "x < 240"
    | x y z u where "encodeRune c = [x, y, z, u]" "240 \<le> x"
    using encodeRune_shape [of c] by blast
  then show ?thesis
  proof cases
    case 1
    then show ?thesis using v by (auto simp: Contains_def)
  next
    case 2
    then show ?thesis using v by (auto simp: Contains_def)
  next
    case 3
    then have "x = 0xE2" using v by (auto simp: Contains_def)
    then show ?thesis using v 3 Contains_suits by simp
  next
    case 4
    then show ?thesis using v by (auto simp: Contains_def)
  qed
qed

lemma suit_length: "s \<in> set allSuits \<Longrightarrow> length s = 3"
  by (auto simp: allSuits_def Spades_def Hearts_def Diamonds_def Clubs_def)

lemma rank_length: "r \<in> set allRanks \<Longrightarrow> length r = 1"
  by (auto simp: allRanks_def Two_def Three_def Four_def Five_def Six_def Seven_def
        Eight_def Nine_def Ten_def Jack_def Queen_def King_def Ace_def)

lemma encodeRune_RuneError: "encodeRune RuneError = [0xEF, 0xBF, 0xBD]"
  by (simp add: encodeRune_def RuneError_def)

lemma RuneError_invalid: "\<not> Rank_valid (encodeRune RuneError)" "\<not> Suit_valid (encodeRune RuneError)"
proof -
  show "\<not> Rank_valid (encodeRune RuneError)"
    using rank_length [of "encodeRune RuneError"]
    by (auto simp: Rank_valid_iff encodeRune_RuneError)
  show "\<not> Suit_valid (encodeRune RuneError)"
    using Suit_valid_encodeRune [of RuneError]
    by (auto simp: encodeRune_RuneError allSuits_def Spades_def Hearts_def Diamonds_def Clubs_def)
qed

text \<open>The loop, read backwards from a successful result and forwards on a card.\<close>

lemma decode_step:
  assumes "V (encodeRune (fst (decodeRune (b # bs))))" and "\<not> V (encodeRune RuneError)"
  shows "\<exists>rest. b # bs = encodeRune (fst (decodeRune (b # bs))) @ rest
           \<and> drop (snd (decodeRune (b # bs))) (b # bs) = rest
           \<and> snd (decodeRune (b # bs)) = length (encodeRune (fst (decodeRune (b # bs))))"
proof -
  have "decodeRune (b # bs) \<noteq> (RuneError, 1)"
    using assms by (auto simp del: decodeRune.simps)
  then obtain c rest where c: "decodeRune (b # bs) = (c, length (encodeRune c))"
    and rest: "b # bs = encodeRune c @ rest"
    using decodeRune_cases [of b bs] by blast
  have "drop (length (encodeRune c)) (b # bs) = rest"
    by (subst rest) simp
  then show ?thesis
    unfolding c fst_conv snd_conv using rest by blast
qed

lemma unmarshal_done:
  assumes "unmarshal_loop i text r s = Inr (rank, suit)" and "2 \<le> i"
  shows "text = [] \<and> rank = r \<and> suit = s"
  using assms by (cases "text") (auto simp: Let_def simp del: decodeRune.simps)

lemma unmarshal_suit:
  assumes "unmarshal_loop 1 text r [] = Inr (rank, suit)"
  shows "(text = [] \<and> rank = r \<and> suit = []) \<or> (rank = r \<and> suit \<in> set allSuits \<and> text = suit)"
proof (cases "text")
  case Nil
  then show ?thesis using assms by simp
next
  case (Cons b bs)
  define c where "c = fst (decodeRune (b # bs))"
  define w where "w = snd (decodeRune (b # bs))"
  have v: "Suit_valid (encodeRune c)"
    using assms Cons
    by (auto simp: Let_def c_def simp del: decodeRune.simps split: if_splits)
  then have next_loop: "unmarshal_loop (1 + w) (drop w (b # bs)) r (encodeRune c) = Inr (rank, suit)"
    using assms Cons
    by (simp add: Let_def c_def w_def del: decodeRune.simps)
  obtain rest where split: "b # bs = encodeRune c @ rest" and dr: "drop w (b # bs) = rest"
    and len: "w = length (encodeRune c)"
    using decode_step [of Suit_valid b bs] v RuneError_invalid(2) unfolding c_def w_def
    by blast
  have s: "encodeRune c \<in> set allSuits"
    using v by (rule Suit_valid_encodeRune)
  have "2 \<le> 1 + w" using len suit_length [OF s] by simp
  then have "rest = [] \<and> rank = r \<and> suit = encodeRune c"
    using unmarshal_done [OF next_loop] dr by simp
  then show ?thesis using Cons split s by simp
qed

lemma unmarshal_rank:
  assumes "unmarshal_loop 0 text [] [] = Inr (rank, suit)"
  shows "(text = [] \<and> rank = [] \<and> suit = [])
         \<or> (rank \<in> set allRanks \<and> (text = rank \<and> suit = [] \<or> suit \<in> set allSuits \<and> text = rank @ suit))"
proof (cases "text")
  case Nil
  then show ?thesis using assms by simp
next
  case (Cons b bs)
  define c where "c = fst (decodeRune (b # bs))"
  define w where "w = snd (decodeRune (b # bs))"
  have v: "Rank_valid (encodeRune c)"
    using assms Cons
    by (auto simp: Let_def c_def simp del: decodeRune.simps split: if_splits)
  then have next_loop: "unmarshal_loop w (drop w (b # bs)) (encodeRune c) [] = Inr (rank, suit)"
    using assms Cons
    by (simp add: Let_def c_def w_def del: decodeRune.simps)
  obtain rest where split: "b # bs = encodeRune c @ rest" and dr: "drop w (b # bs) = rest"
    and len: "w = length (encodeRune c)"
    using decode_step [of Rank_valid b bs] v RuneError_invalid(1) unfolding c_def w_def
    by blast
  have r: "encodeRune c \<in> set allRanks"
    using v by (simp add: Rank_valid_iff)
  then have "w = 1" using len rank_length by simp
  then have "unmarshal_loop 1 rest (encodeRune c) [] = Inr (rank, suit)"
    using next_loop dr by simp
  then have "(rest = [] \<and> rank = encodeRune c \<and> suit = [])
             \<or> (rank = encodeRune c \<and> suit \<in> set allSuits \<and> rest = suit)"
    by (rule unmarshal_suit)
  then show ?thesis
    using split r Cons by auto
qed

lemma UnmarshalText_Inr:
  assumes "UnmarshalText text = Inr crd"
  shows "TheRank crd \<in> set allRanks \<and> TheSuit crd \<in> set allSuits
         \<and> text = TheRank crd @ TheSuit crd"
proof -
  obtain rank suit where l: "unmarshal_loop 0 text [] [] = Inr (rank, suit)"
    and ne: "rank \<noteq> []" "suit \<noteq> []" and crd: "crd = \<lparr>TheRank = rank, TheSuit = suit\<rparr>"
    using assms
    by (auto simp: UnmarshalText_def split: sum.splits prod.splits if_splits)
  show ?thesis
    using unmarshal_rank [OF l] ne crd by auto
qed

lemma rank_ascii: "r \<in> set allRanks \<Longrightarrow> \<exists>c<128. r = [c]"
  by (auto simp: allRanks_def Two_def Three_def Four_def Five_def Six_def Seven_def
        Eight_def Nine_def Ten_def Jack_def Queen_def King_def Ace_def)

lemma unmarshal_rank_step:
  assumes "r \<in> set allRanks"
  shows "unmarshal_loop 0 (r @ rest) rank suit = unmarshal_loop 1 rest r suit"
proof -
  obtain c where c: "r = [c]" "c < 128"
    using rank_ascii [OF assms] by blast
  have "encodeRune c = [c]" using c(2) by (simp add: encodeRune_def)
  moreover have "Rank_valid [c]" using assms c(1) by (simp add: Rank_valid_iff)
  ultimately show ?thesis using c by simp
qed

lemma decode_suit:
  assumes "x = 0xA0 \<or> x = 0xA5 \<or> x = 0xA6 \<or> x = 0xA3"
  shows "decodeRune (0xE2 # 0x99 # x # rest) = (0x2640 + (x - 128), 3)
         \<and> encodeRune (0x2640 + (x - 128)) = [0xE2, 0x99, x]"
  using assms by (auto simp: accept_range_def encodeRune_def)

lemma Suit_valid_suits: "s \<in> set allSuits \<Longrightarrow> Suit_valid s"
  by (auto simp: allSuits_def Suit_valid_def Contains_def Spades_def Hearts_def Diamonds_def Clubs_def)

lemma unmarshal_suit_step:
  assumes "s \<in> set allSuits"
  shows "unmarshal_loop 1 (s @ rest) rank suit = unmarshal_loop 4 rest rank s"
proof -
  obtain x where x: "s = [0xE2, 0x99, x]" "x = 0xA0 \<or> x = 0xA5 \<or> x = 0xA6 \<or> x = 0xA3"
    using assms by (auto simp: allSuits_def Spades_def Hearts_def Diamonds_def Clubs_def)
  have "Suit_valid [0xE2, 0x99, x]" using assms x(1) Suit_valid_suits by simp
  then show ?thesis
    using decode_suit [OF x(2), of rest] x(1)
    by (simp add: Let_def del: decodeRune.simps)
qed

lemma UnmarshalText_card:
  assumes "r \<in> set allRanks" and "s \<in> set allSuits"
  shows "UnmarshalText (r @ s) = Inr \<lparr>TheRank = r, TheSuit = s\<rparr>"
proof -
  have "unmarshal_loop 0 (r @ s) [] [] = Inr (r, s)"
    using unmarshal_rank_step [OF assms(1), of s] unmarshal_suit_step [OF assms(2), of "[]"]
    by simp
  moreover have "r \<noteq> []" "s \<noteq> []"
    using rank_length [OF assms(1)] suit_length [OF assms(2)] by auto
  ultimately show ?thesis by (simp add: UnmarshalText_def)
qed

lemma not_card_length:
  assumes "length bs \<noteq> 4"
  shows "\<nexists>rank suit. rank \<in> set allRanks \<and> suit \<in> set allSuits \<and> bs = rank @ suit"
proof
  assume "\<exists>rank suit. rank \<in> set allRanks \<and> suit \<in> set allSuits \<and> bs = rank @ suit"
  then obtain rank suit where "rank \<in> set allRanks" "suit \<in> set allSuits" "bs = rank @ suit"
    by blast
  then have "length bs = 4" using rank_length suit_length by simp
  then show False using assms by simp
qed

lemma not_card_lead:
  assumes "128 \<le> b"
  shows "\<nexists>rank suit. rank \<in> set allRanks \<and> suit \<in> set allSuits \<and> b # bs = rank @ suit"
proof
  assume "\<exists>rank suit. rank \<in> set allRanks \<and> suit \<in> set allSuits \<and> b # bs = rank @ suit"
  then obtain rank suit where "rank \<in> set allRanks" "b # bs = rank @ suit"
    by blast
  then show False using rank_ascii [of rank] assms by auto
qed

lemma Cards_length: "length Cards = 52"
  by (simp add: Cards_def allRanks_def allSuits_def)

lemma TenSpades_in_Cards: "\<lparr>TheRank = Ten, TheSuit = Spades\<rparr> \<in> set Cards"
  by (simp add: Cards_def allRanks_def allSuits_def)

text \<open>
  Claim C9. \<open>Card.UnmarshalText\<close> inverts \<open>MarshalText\<close> on each of the 52 cards; on the
  two-character text of a rank followed by a suit it succeeds and returns that rank and that
  suit; on every other sequence of bytes, well-formed UTF-8 or not, it returns the error.
\<close>

theorem UnmarshalText_exactly:
  "(\<forall>c \<in> set Cards. UnmarshalText (MarshalText c) = Inr c)
   \<and> (\<forall>rank \<in> set allRanks. \<forall>suit \<in> set allSuits.
         UnmarshalText (rank @ suit) = Inr \<lparr>TheRank = rank, TheSuit = suit\<rparr>)
   \<and> ((\<nexists>rank suit. rank \<in> set allRanks \<and> suit \<in> set allSuits \<and> text = rank @ suit)
         \<longrightarrow> UnmarshalText text = Inl ErrFormat)"
proof (intro conjI ballI impI)
  fix c assume "c \<in> set Cards"
  then obtain r s where "r \<in> set allRanks" "s \<in> set allSuits" "c = \<lparr>TheRank = r, TheSuit = s\<rparr>"
    by (auto simp: Cards_def)
  then show "UnmarshalText (MarshalText c) = Inr c"
    using UnmarshalText_card by (simp add: MarshalText_def)
next
  fix rank suit assume "rank \<in> set allRanks" "suit \<in> set allSuits"
  then show "UnmarshalText (rank @ suit) = Inr \<lparr>TheRank = rank, TheSuit = suit\<rparr>"
    by (rule UnmarshalText_card)
next
  assume no: "\<nexists>rank suit. rank \<in> set allRanks \<and> suit \<in> set allSuits \<and> text = rank @ suit"
  show "UnmarshalText text = Inl ErrFormat"
  proof (cases "UnmarshalText text")
    case (Inl e)
    then show ?thesis by (cases e) simp
  next
    case (Inr crd)
    then show ?thesis using UnmarshalText_Inr [OF Inr] no by blast
  qed
qed

theorem UnmarshalText_exactly_witness:
  "length Cards = 52
   \<and> UnmarshalText (MarshalText \<lparr>TheRank = Ten, TheSuit = Spades\<rparr>) = Inr \<lparr>TheRank = Ten, TheSuit = Spades\<rparr>
   \<and> UnmarshalText [0x54, 0xE2, 0x99, 0xA0] = Inr \<lparr>TheRank = [0x54], TheSuit = [0xE2, 0x99, 0xA0]\<rparr>
   \<and> UnmarshalText [0x54] = Inl ErrFormat
   \<and> UnmarshalText [0x54, 0xE2, 0x99, 0xA0, 0x54] = Inl ErrFormat
   \<and> UnmarshalText [0xE2, 0x99, 0xA0, 0x54] = Inl ErrFormat"
proof -
  have mem: "Ten \<in> set allRanks" "Spades \<in> set allSuits"
    by (simp_all add: allRanks_def allSuits_def)
  have "UnmarshalText (MarshalText \<lparr>TheRank = Ten, TheSuit = Spades\<rparr>) = Inr \<lparr>TheRank = Ten, TheSuit = Spades\<rparr>"
    using UnmarshalText_exactly [of "[]", THEN conjunct1] TenSpades_in_Cards by blast
  moreover have "UnmarshalText (Ten @ Spades) = Inr \<lparr>TheRank = Ten, TheSuit = Spades\<rparr>"
    using UnmarshalText_exactly [of "[]", THEN conjunct2, THEN conjunct1] mem by blast
  then have "UnmarshalText [0x54, 0xE2, 0x99, 0xA0] = Inr \<lparr>TheRank = [0x54], TheSuit = [0xE2, 0x99, 0xA0]\<rparr>"
    by (simp add: Ten_def Spades_def)
  moreover have "UnmarshalText [0x54] = Inl ErrFormat"
    using UnmarshalText_exactly [of "[0x54]", THEN conjunct2, THEN conjunct2]
      not_card_length [of "[0x54]"]
    by simp
  moreover have "UnmarshalText [0x54, 0xE2, 0x99, 0xA0, 0x54] = Inl ErrFormat"
    using UnmarshalText_exactly [of "[0x54, 0xE2, 0x99, 0xA0, 0x54]", THEN conjunct2, THEN conjunct2]
      not_card_length [of "[0x54, 0xE2, 0x99, 0xA0, 0x54]"]
    by simp
  moreover have "UnmarshalText [0xE2, 0x99, 0xA0, 0x54] = Inl ErrFormat"
    using UnmarshalText_exactly [of "[0xE2, 0x99, 0xA0, 0x54]", THEN conjunct2, THEN conjunct2]
      not_card_lead [of "0xE2" "[0x99, 0xA0, 0x54]"]
    by simp
  ultimately show ?thesis using Cards_length by simp
qed

section \<open>Serializing a table, reading it back and serializing again\<close>

text \<open>
  Claim C8. The table with the blinds posted and the action on seat 0 serializes with
  \<open>minRaise\<close> 4, the value of \<open>MinRaise()\<close> before any raise (twice the big blind). Reading
  that JSON into a fresh table succeeds and stores 4 in the field \<open>minRaise\<close>, everything
  else as it was; \<open>MinRaise()\<close> of that table is the outstanding chip plus 4 plus the small
  blind already posted, so the second serialization has \<open>minRaise\<close> 6 and is not the first.
\<close>

theorem json_round_trip_changes_minRaise:
  "Table_UnmarshalJSON ex_registered (Table_MarshalJSON ex_blinds) = Inr (ex_blinds\<lparr>minRaise := 4\<rparr>)
   \<and> tableJSON_MinRaise (Table_MarshalJSON ex_blinds) = 4
   \<and> tableJSON_MinRaise (Table_MarshalJSON (ex_blinds\<lparr>minRaise := 4\<rparr>)) = 6
   \<and> Table_MarshalJSON (ex_blinds\<lparr>minRaise := 4\<rparr>) \<noteq> Table_MarshalJSON ex_blinds"
  by code_simp

end
